theory Spec2Isabelle
  imports Main "HOL-Library.AList"
begin

section \<open>JavaScript values\<close>

text \<open>
  The component is TypeScript without type annotations on the data it handles, so the
  model works on JavaScript values. Primitive values are shared by the two views used
  below: immutable trees (action descriptors, JSON bodies) and references into a store
  of mutable objects (the form values that \<open>_flatten\<close> rewrites in place).
  Numbers are modelled by the integers; the component never computes with them.
\<close>

datatype prim = JUndefined | JNull | JBool bool | JNum int | JStr string

datatype error = TypeError string | Error string

text \<open>Immutable JavaScript values: a primitive, an array, or a plain object given by
  its own properties.\<close>

datatype jv = Scalar prim | Arr "jv list" | Obj "(string \<times> jv) list"

definition undefined_jv :: jv where
  "undefined_jv = Scalar JUndefined"

fun truthy_prim :: "prim \<Rightarrow> bool" where
  "truthy_prim JUndefined = False"
| "truthy_prim JNull = False"
| "truthy_prim (JBool b) = b"
| "truthy_prim (JNum n) = (n \<noteq> 0)"
| "truthy_prim (JStr s) = (s \<noteq> [])"

fun truthy :: "jv \<Rightarrow> bool" where
  "truthy (Scalar p) = truthy_prim p"
| "truthy (Arr xs) = True"
| "truthy (Obj ps) = True"

text \<open>\<open>Array.isArray(x)\<close> and \<open>Object(x) !== x\<close> (true exactly of primitives).\<close>

fun isArray :: "jv \<Rightarrow> bool" where
  "isArray (Arr xs) = True"
| "isArray v = False"

fun is_primitive :: "jv \<Rightarrow> bool" where
  "is_primitive (Scalar p) = True"
| "is_primitive v = False"

text \<open>\<open>a[i]\<close> on an array: the element, or \<open>undefined\<close> past the end.\<close>

definition element :: "jv list \<Rightarrow> nat \<Rightarrow> jv" where
  "element xs i = (if i < length xs then xs ! i else undefined_jv)"

text \<open>
  \<open>x.name\<close> for a property name that no prototype defines (\<open>id\<close>, \<open>label\<close>,
  \<open>color\<close>, \<open>cancel\<close>): reading it off \<open>null\<close> or \<open>undefined\<close> throws a
  TypeError, off any other primitive or an array it is \<open>undefined\<close>, off a plain object
  it is the own property or \<open>undefined\<close>.
\<close>

fun member :: "jv \<Rightarrow> string \<Rightarrow> error + jv" where
  "member (Scalar JUndefined) name = Inl (TypeError ''Cannot read property of undefined'')"
| "member (Scalar JNull) name = Inl (TypeError ''Cannot read property of null'')"
| "member (Scalar p) name = Inr undefined_jv"
| "member (Arr xs) name = Inr undefined_jv"
| "member (Obj ps) name = Inr (case map_of ps name of None \<Rightarrow> undefined_jv | Some v \<Rightarrow> v)"

text \<open>The same read where the receiver is known to be an object or an array.\<close>

definition field :: "jv \<Rightarrow> string \<Rightarrow> jv" where
  "field v name = (case member v name of Inl e \<Rightarrow> undefined_jv | Inr x \<Rightarrow> x)"

section \<open>The action-list normalizer: \<open>_generate_actions\<close>\<close>

record action_record =
  id_prop :: jv
  label_prop :: jv
  color_prop :: jv
  cancel_prop :: jv

text \<open>
  The body of the \<open>for\<close> loop. The four locals are computed as in the source; the
  object pushed onto \<open>ret\<close> takes \<open>id\<close>, \<open>label\<close> and \<open>color\<close> from the locals
  and \<open>cancel\<close> from \<open>action.cancel\<close>, so the local \<open>action_cancel\<close> is dropped.
\<close>

definition action_locals :: "jv \<Rightarrow> jv \<times> jv \<times> jv \<times> jv" where
  "action_locals action =
     (case action of
        Arr xs \<Rightarrow>
          (let action_id = element xs 0; action_label = element xs 1
           in (action_id,
               (if action_label = undefined_jv then action_id else action_label),
               Scalar (JBool False), Scalar (JStr ''primary'')))
      | Scalar p \<Rightarrow> (action, action, Scalar (JBool False), Scalar (JStr ''primary''))
      | Obj ps \<Rightarrow>
          (field action ''id'', field action ''label'', field action ''cancel'',
           (if truthy (field action ''color'') then field action ''color''
            else Scalar (JStr ''primary''))))"

definition pushed_object :: "jv \<Rightarrow> error + action_record" where
  "pushed_object action =
     (case action_locals action of
        (action_id, action_label, action_cancel, action_color) \<Rightarrow>
          (case member action ''cancel'' of
             Inl e \<Rightarrow> Inl e
           | Inr c \<Rightarrow>
               Inr \<lparr>id_prop = action_id, label_prop = action_label,
                    color_prop = action_color, cancel_prop = c\<rparr>))"

fun actions_loop :: "jv list \<Rightarrow> action_record list \<Rightarrow> error + action_record list" where
  "actions_loop [] ret = Inr ret"
| "actions_loop (action # rest) ret =
     (case pushed_object action of
        Inl e \<Rightarrow> Inl e
      | Inr r \<Rightarrow> actions_loop rest (ret @ [r]))"

text \<open>
  \<open>for (const action of actions)\<close> walks an array element by element and a string
  character by character; any other truthy value is not iterable.
\<close>

fun iterate :: "jv \<Rightarrow> error + jv list" where
  "iterate (Arr xs) = Inr xs"
| "iterate (Scalar (JStr s)) = Inr (map (\<lambda>c. Scalar (JStr [c])) s)"
| "iterate v = Inl (TypeError ''actions is not iterable'')"

definition generate_actions :: "jv \<Rightarrow> error + action_record list" where
  "generate_actions actions =
     (if truthy actions
      then (case iterate actions of Inl e \<Rightarrow> Inl e | Inr xs \<Rightarrow> actions_loop xs [])
      else Inr [])"


section \<open>Objects in a store\<close>

text \<open>
  \<open>_flatten\<close> rewrites objects in place and \<open>submitted\<close> copies the form value
  only one level deep, so the form values live in a store: a list of objects, an object
  being the list of its own properties in creation order, and a reference being an index
  into the list. Only plain objects with data properties are modelled (the form values
  of the specification: a nested mapping from field name to scalar or nested mapping);
  arrays and accessors are not. The names of an object are distinct. Every object has
  the prototype \<open>Object.prototype\<close> to begin with; the prototype of an object is not
  recorded, since the component reads own properties only (every read \<open>current[k]\<close> is
  for an own name \<open>k\<close>). References are created by allocation only, so a reference is
  always below the length of the store.
\<close>

type_synonym addr = nat

datatype jsval = Prim prim | Ref addr

type_synonym props = "(string \<times> jsval) list"

type_synonym heap = "props list"

text \<open>
  \<open>Object.getOwnPropertyNames\<close>: the names that are array indices (canonical
  decimal numerals below \<open>2^32 - 1\<close>) in ascending numeric order, then the other names in
  creation order.
\<close>

definition is_digit :: "char \<Rightarrow> bool" where
  "is_digit c = (48 \<le> (of_char c :: int) \<and> (of_char c :: int) \<le> 57)"

definition digits_value :: "string \<Rightarrow> int" where
  "digits_value s = foldl (\<lambda>n c. 10 * n + (of_char c - 48)) 0 s"

definition is_array_index :: "string \<Rightarrow> bool" where
  "is_array_index s =
     (s \<noteq> [] \<and> list_all is_digit s \<and> (s = ''0'' \<or> hd s \<noteq> CHR ''0'')
      \<and> length s \<le> 10 \<and> digits_value s < 4294967295)"

definition own_property_names :: "(string \<times> 'v) list \<Rightarrow> string list" where
  "own_property_names ps =
     sort_key digits_value (filter is_array_index (map fst ps))
       @ filter (\<lambda>k. \<not> is_array_index k) (map fst ps)"

text \<open>Reading \<open>o[k]\<close> for an own name, defining the own property \<open>k\<close> (in place
  when the property exists, appended otherwise) and \<open>delete o[k]\<close>, on the own
  properties of an object.\<close>

definition get_prop :: "props \<Rightarrow> string \<Rightarrow> jsval" where
  "get_prop ps k = (case map_of ps k of None \<Rightarrow> Prim JUndefined | Some v \<Rightarrow> v)"

definition set_prop :: "string \<Rightarrow> 'v \<Rightarrow> (string \<times> 'v) list \<Rightarrow> (string \<times> 'v) list" where
  "set_prop k v ps = AList.update k v ps"

definition delete_prop :: "string \<Rightarrow> (string \<times> 'v) list \<Rightarrow> (string \<times> 'v) list" where
  "delete_prop k ps = AList.delete k ps"

text \<open>
  The assignment \<open>o[k] = v\<close>. It defines or updates the own property \<open>k\<close>, with one
  exception: for the name \<open>__proto__\<close> on an object that has no own property of that
  name, the assignment reaches the setter that \<open>Object.prototype\<close> has for this name,
  which replaces the prototype of \<open>o\<close> when \<open>v\<close> is an object or \<open>null\<close>, does
  nothing for another \<open>v\<close>, and defines no own property in either case. (The setter
  throws on a cyclic chain of prototypes; the chains that the component makes lead from an
  object to objects nested in it, and are not cyclic on a store without sharing.)
\<close>

definition put_prop :: "string \<Rightarrow> 'v \<Rightarrow> (string \<times> 'v) list \<Rightarrow> (string \<times> 'v) list" where
  "put_prop k v ps =
     (if k = ''__proto__'' \<and> k \<notin> set (map fst ps) then ps else set_prop k v ps)"

text \<open>\<open>s.startsWith(p)\<close>, and the test \<open>name && name.startsWith('generated_')\<close>
  on a name that is a string.\<close>

definition startsWith :: "string \<Rightarrow> string \<Rightarrow> bool" where
  "startsWith s p = (take (length p) s = p)"

definition is_marker :: "string \<Rightarrow> bool" where
  "is_marker name = (name \<noteq> [] \<and> startsWith name ''generated_'')"

text \<open>
  Copying the properties \<open>ks\<close> of a source into a target, in that order, the source
  being read through \<open>rd\<close>: by definition of own properties, as the object spread
  \<open>{...source}\<close> does, and by assignment, as \<open>Object.assign(target, source)\<close> and
  the loops \<open>target[k] = source[k]\<close> of the component do.
\<close>

definition assign_from :: "(string \<Rightarrow> 'v) \<Rightarrow> string list \<Rightarrow> (string \<times> 'v) list \<Rightarrow> (string \<times> 'v) list" where
  "assign_from rd ks target = fold (\<lambda>k. set_prop k (rd k)) ks target"

definition put_from :: "(string \<Rightarrow> 'v) \<Rightarrow> string list \<Rightarrow> (string \<times> 'v) list \<Rightarrow> (string \<times> 'v) list" where
  "put_from rd ks target = fold (\<lambda>k. put_prop k (rd k)) ks target"

definition object_assign :: "props \<Rightarrow> props \<Rightarrow> props" where
  "object_assign target source = put_from (get_prop source) (own_property_names source) target"

section \<open>Flattening: \<open>_flatten\<close>\<close>

text \<open>
  The second loop of \<open>_flatten\<close>: \<open>parent[k] = current[k]\<close> for each name.
\<close>

fun hoist_loop :: "string list \<Rightarrow> addr \<Rightarrow> addr \<Rightarrow> heap \<Rightarrow> heap" where
  "hoist_loop [] current parent h = h"
| "hoist_loop (k # ks) current parent h =
     hoist_loop ks current parent
       (h[parent := put_prop k (get_prop (h ! current) k) (h ! parent)])"

text \<open>
  \<open>_flatten(name, current, parent)\<close>. The recursion follows references, so it need not
  end on a cyclic store; the first argument bounds the depth of the calls, and \<open>None\<close>
  is a run that needs more. A run that ends gives the store it leaves and the error it
  threw, if any. \<open>name\<close> and \<open>parent\<close> are \<open>None\<close> for the \<open>null\<close> of the
  outermost call. The names of \<open>current\<close> are read once before the first loop and once
  more before the second one, as in the source. Hoisting into a \<open>null\<close> parent is a
  TypeError.
\<close>

fun flatten :: "nat \<Rightarrow> string option \<Rightarrow> jsval \<Rightarrow> addr option \<Rightarrow> heap \<Rightarrow> (heap \<times> error option) option"
and flatten_loop :: "nat \<Rightarrow> string list \<Rightarrow> addr \<Rightarrow> heap \<Rightarrow> (heap \<times> error option) option" where
  "flatten n name (Prim p) parent h = Some (h, None)"
| "flatten 0 name (Ref current) parent h = None"
| "flatten (Suc n) name (Ref current) parent h =
     (case flatten_loop n (own_property_names (h ! current)) current h of
        Some (h1, None) \<Rightarrow>
          (case name of
             None \<Rightarrow> Some (h1, None)
           | Some nm \<Rightarrow>
               if is_marker nm then
                 (case parent of
                    None \<Rightarrow> Some (h1, Some (TypeError ''Cannot set property of null''))
                  | Some p \<Rightarrow>
                      (let h2 = hoist_loop (own_property_names (h1 ! current)) current p h1
                       in Some (h2[p := delete_prop nm (h2 ! p)], None)))
               else Some (h1, None))
      | r \<Rightarrow> r)"
| "flatten_loop n [] current h = Some (h, None)"
| "flatten_loop n (k # ks) current h =
     (case flatten n (Some k) (get_prop (h ! current) k) (Some current) h of
        Some (h1, None) \<Rightarrow> flatten_loop n ks current h1
      | r \<Rightarrow> r)"

section \<open>The body of the submission: \<open>submit_to_django\<close>\<close>

text \<open>
  The interface \<open>DjangoFormConfig\<close> is declared outside this file; the component reads
  the four fields below and passes the rest through. A field that is absent, \<open>null\<close> or
  \<open>undefined\<close> is \<open>None\<close>; \<open>has_initial_data\<close> is the truth value the partition tests.
\<close>

record django_form_config =
  django_url :: "string option"
  "method" :: "string option"
  has_initial_data :: bool
  initial_data :: "jv option"

text \<open>
  The input \<open>extra_form_data\<close>: an \<open>HttpParams\<close> (names with their values, in insertion
  order), a plain object given by its own properties, or nothing.
\<close>

datatype extra_form_data = Http_Params "(string \<times> string list) list" | Plain "props option"

text \<open>What the component does to the outside, in the order it does it. The request for
  the form of a URL carries the extra form data as its parameters.\<close>

datatype effect =
    Http_Get "string option"
  | Http_Get_Form string extra_form_data
  | Http_Post string props
  | Http_Patch string props
  | Emit_Submit jsval "jv option"
  | Emit_Cancel jsval
  | Snack_Bar_Open string
  | Show_Communication_Error jv

text \<open>How a request ends: with a response, or with a transport error.\<close>

datatype http_result = Http_Ok jv | Http_Failed jv

text \<open>\<open>HttpParams.get(k)\<close>: the first value of the name, \<open>null\<close> without the name.
  In \<open>submit_to_django\<close> the loop over \<open>keys()\<close> assigns \<open>extra[k]\<close> for each
  name.\<close>

definition params_get :: "(string \<times> string list) list \<Rightarrow> string \<Rightarrow> jsval" where
  "params_get m k =
     (case map_of m k of
        None \<Rightarrow> Prim JNull
      | Some [] \<Rightarrow> Prim JUndefined
      | Some (x # xs) \<Rightarrow> Prim (JStr x))"

definition extra_of :: "extra_form_data \<Rightarrow> props option" where
  "extra_of e =
     (case e of
        Http_Params m \<Rightarrow> Some (put_from (params_get m) (map fst m) [])
      | Plain x \<Rightarrow> x)"

text \<open>\<open>{...extra, ...data}\<close>: a fresh object that receives the properties of \<open>extra\<close>
  and then those of \<open>data\<close>; spreading \<open>undefined\<close>, \<open>null\<close> or another primitive
  adds nothing.\<close>

definition spread :: "props option \<Rightarrow> props \<Rightarrow> props" where
  "spread source target =
     (case source of
        None \<Rightarrow> target
      | Some ps \<Rightarrow> assign_from (get_prop ps) (own_property_names ps) target)"

definition props_of :: "heap \<Rightarrow> jsval \<Rightarrow> props option" where
  "props_of h v = (case v of Prim p \<Rightarrow> None | Ref a \<Rightarrow> Some (h ! a))"

definition request_body :: "props option \<Rightarrow> heap \<Rightarrow> jsval \<Rightarrow> props" where
  "request_body extra h data = spread (props_of h data) (spread extra [])"

text \<open>
  The subscription to the request: a response opens the snack bar and emits
  \<open>submit\<close>; an error goes to \<open>show_communication_error\<close>, whose observable takes the
  place of the request, so that whatever it emits is handled as a response. The error
  service is outside this file and is a parameter: the values its observable emits.
\<close>

definition on_response :: "jsval \<Rightarrow> jv \<Rightarrow> effect list" where
  "on_response data response = [Snack_Bar_Open ''Saved'', Emit_Submit data (Some response)]"

definition after_call :: "(jv \<Rightarrow> jv list) \<Rightarrow> http_result \<Rightarrow> jsval \<Rightarrow> effect list" where
  "after_call show_communication_error reply data =
     (case reply of
        Http_Ok response \<Rightarrow> on_response data response
      | Http_Failed err \<Rightarrow>
          Show_Communication_Error err
            # concat (map (on_response data) (show_communication_error err)))"

definition method_text :: "string option \<Rightarrow> string" where
  "method_text m = (case m of None \<Rightarrow> ''undefined'' | Some s \<Rightarrow> s)"

text \<open>
  The body of the subscription in \<open>submit_to_django\<close> (the function that the method
  hands to \<open>subscribe\<close>), for a configuration \<open>config\<close> delivered to it and the outcome
  \<open>reply\<close> of the request it issues. The result is the effects in order and the error
  thrown after them, if any. An absent or empty \<open>django_url\<close> is falsy. Whether the
  observable \<open>config$\<close> delivers a configuration is the matter of \<open>ngOnInit\<close> and of
  the method as a whole, \<open>submit_to_django_call\<close> below.
\<close>

definition submit_to_django ::
  "extra_form_data \<Rightarrow> (jv \<Rightarrow> jv list) \<Rightarrow> 'a django_form_config_scheme \<Rightarrow> http_result
     \<Rightarrow> heap \<Rightarrow> jsval \<Rightarrow> effect list \<times> error option" where
  "submit_to_django extra_data show_communication_error config reply h data =
     (let extra = extra_of extra_data in
      case django_url config of
        None \<Rightarrow> ([Emit_Submit data None], None)
      | Some url \<Rightarrow>
          if url \<noteq> [] then
            (if method config = Some ''post'' then
               (Http_Post url (request_body extra h data)
                  # after_call show_communication_error reply data, None)
             else if method config = Some ''patch'' then
               (Http_Patch url (request_body extra h data)
                  # after_call show_communication_error reply data, None)
             else ([], Some (Error (''Unimplemented method '' @ method_text (method config)))))
          else ([Emit_Submit data None], None))"

text \<open>
  \<open>String(x)\<close> for the primitive used as a property name in \<open>value[button_id]\<close>. A
  number prints in decimal digits when its magnitude is below \<open>10^21\<close>; a larger one
  prints with an exponent, which the integers of the model do not determine, so that the
  key of a number is given for the magnitudes below \<open>10^21\<close> only.
\<close>

fun nat_digits :: "nat \<Rightarrow> string" where
  "nat_digits n =
     (if n < 10 then [char_of (48 + n)]
      else nat_digits (n div 10) @ [char_of (48 + n mod 10)])"

fun property_key :: "prim \<Rightarrow> string" where
  "property_key JUndefined = ''undefined''"
| "property_key JNull = ''null''"
| "property_key (JBool b) = (if b then ''true'' else ''false'')"
| "property_key (JNum i) = (if i < 0 then CHR ''-'' # nat_digits (nat (- i)) else nat_digits (nat i))"
| "property_key (JStr s) = s"

section \<open>Observables\<close>

text \<open>
  The component wires its inputs to its requests with RxJS observables. A subscription
  to an observable is modelled by what it brings about: the effects issued and the
  values delivered while \<open>subscribe\<close> runs, the error notification that ends it, if
  any, and the effects issued and the values delivered afterwards, when the requests are
  answered. An error notification closes the subscription, and the subscriptions it has
  made: nothing is delivered after it.
\<close>

record 'a subscription =
  issued :: "effect list"
  delivered :: "'a list"
  failed :: "error option"
  issued_later :: "effect list"
  delivered_later :: "'a list"

definition silent :: "'a subscription" where
  "silent = \<lparr>issued = [], delivered = [], failed = None, issued_later = [], delivered_later = []\<rparr>"

definition closed_by :: "error \<Rightarrow> 'a subscription \<Rightarrow> 'a subscription" where
  "closed_by e s = s\<lparr>failed := Some e, issued_later := [], delivered_later := []\<rparr>"

text \<open>A \<open>BehaviorSubject\<close> delivers the value it holds to a new subscriber. The inputs
  of the component are bound before \<open>ngOnInit\<close>; later changes of a subject are not
  modelled.\<close>

definition behavior_subject :: "'a \<Rightarrow> 'a subscription" where
  "behavior_subject x =
     \<lparr>issued = [], delivered = [x], failed = None, issued_later = [], delivered_later = []\<rparr>"

text \<open>The operators \<open>filter\<close>, \<open>map\<close> and \<open>mergeMap\<close>. The observables that the
  component projects to are requests with their errors caught, which do not fail.\<close>

definition filter_op :: "('a \<Rightarrow> bool) \<Rightarrow> 'a subscription \<Rightarrow> 'a subscription" where
  "filter_op p s =
     \<lparr>issued = issued s, delivered = filter p (delivered s), failed = failed s,
      issued_later = issued_later s, delivered_later = filter p (delivered_later s)\<rparr>"

definition map_op :: "('a \<Rightarrow> 'b) \<Rightarrow> 'a subscription \<Rightarrow> 'b subscription" where
  "map_op g s =
     \<lparr>issued = issued s, delivered = map g (delivered s), failed = failed s,
      issued_later = issued_later s, delivered_later = map g (delivered_later s)\<rparr>"

definition merge_map :: "('a \<Rightarrow> 'b subscription) \<Rightarrow> 'a subscription \<Rightarrow> 'b subscription" where
  "merge_map project s =
     (let now = map project (delivered s);
          later = map project (delivered_later s);
          r = \<lparr>issued = issued s @ concat (map issued now),
               delivered = concat (map delivered now),
               failed = None,
               issued_later = issued_later s @ concat (map issued_later now)
                 @ concat (map (\<lambda>i. issued i @ issued_later i) later),
               delivered_later = concat (map delivered_later now)
                 @ concat (map (\<lambda>i. delivered i @ delivered_later i) later)\<rparr>
      in case failed s of None \<Rightarrow> r | Some e \<Rightarrow> closed_by e r)"

text \<open>
  \<open>Observable.merge(a, b, ...)\<close> subscribes to its arguments in turn. An argument that
  is \<open>undefined\<close> (\<open>None\<close> here) is not a stream: the merged observable sends the
  error notification \<open>TypeError\<close> of the library, which closes it, so that the
  subscriptions made so far are cancelled and the arguments that follow are not
  subscribed to. The same holds when an argument fails.
\<close>

definition not_a_stream :: error where
  "not_a_stream = TypeError ''You provided undefined where a stream was expected. You can provide an Observable, Promise, Array, or Iterable.''"

fun observable_merge :: "'a subscription option list \<Rightarrow> 'a subscription" where
  "observable_merge [] = silent"
| "observable_merge (None # sources) = closed_by not_a_stream silent"
| "observable_merge (Some s # sources) =
     (case failed s of
        Some e \<Rightarrow> closed_by e s
      | None \<Rightarrow>
          (let r = observable_merge sources
           in \<lparr>issued = issued s @ issued r,
               delivered = delivered s @ delivered r,
               failed = failed r,
               issued_later = (if failed r = None then issued_later s @ issued_later r else []),
               delivered_later =
                 (if failed r = None then delivered_later s @ delivered_later r else [])\<rparr>))"

text \<open>
  \<open>o.first().subscribe(next)\<close>: \<open>next\<close> is called with the first value, at once or
  later; an error notification that comes before any value is thrown by \<open>subscribe\<close>,
  there being no error handler; or nothing happens.
\<close>

datatype 'a notification = Next 'a | Throws error | Nothing

definition first_subscribe :: "'a subscription \<Rightarrow> effect list \<times> 'a notification" where
  "first_subscribe s =
     (case delivered s of
        x # xs \<Rightarrow> (issued s, Next x)
      | [] \<Rightarrow>
          (case failed s of
             Some e \<Rightarrow> (issued s, Throws e)
           | None \<Rightarrow>
               (case delivered_later s of
                  x # xs \<Rightarrow> (issued s @ issued_later s, Next x)
                | [] \<Rightarrow> (issued s @ issued_later s, Nothing))))"

section \<open>The component and its configuration resolver: \<open>ngOnInit\<close>\<close>

text \<open>
  The fields of the component: the value held by the subject \<open>url$\<close>, the observable
  \<open>config$\<close> (\<open>None\<close> while the field is \<open>undefined\<close>: it is declared without a
  value and assigned by \<open>ngOnInit\<close> only), the value held by the subject \<open>_config$\<close>,
  and the inputs. The observable \<open>config$\<close> is kept as the subscription that a
  subscriber gets.
\<close>

record 'c component =
  url_subject :: "string option"
  config_stream :: "'c django_form_config_scheme subscription option"
  config_subject :: "'c django_form_config_scheme option"
  initial_data_transformation :: "jv \<Rightarrow> jv"
  config_transformation :: "'c django_form_config_scheme \<Rightarrow> 'c django_form_config_scheme"
  extra_form_data :: extra_form_data

text \<open>The component as the constructor and the field initialisers leave it, and the
  setters of the inputs \<open>django_url\<close> and \<open>config\<close>.\<close>

definition new_component :: "'c component" where
  "new_component =
     \<lparr>url_subject = None, config_stream = None, config_subject = None,
      initial_data_transformation = (\<lambda>x. x), config_transformation = (\<lambda>x. x),
      extra_form_data = Plain None\<rparr>"

definition set_django_url :: "string option \<Rightarrow> 'c component \<Rightarrow> 'c component" where
  "set_django_url u c = c\<lparr>url_subject := u\<rparr>"

definition set_config :: "'c django_form_config_scheme option \<Rightarrow> 'c component \<Rightarrow> 'c component" where
  "set_config cfg c = c\<lparr>config_subject := cfg\<rparr>"

text \<open>
  What is outside the file: the observable that the error service gives for an error
  (the values it delivers), and the outcomes of the requests. A response of the form
  endpoint is given by whether it has a property \<open>django_url\<close> of its own and by its
  reading as a configuration; a failure of that request, by the error and by the values
  that the observable of the error service delivers in its place.
\<close>

datatype 'c form_result =
    Form_Ok bool "'c django_form_config_scheme"
  | Form_Failed jv "(bool \<times> 'c django_form_config_scheme) list"

record 'c backend =
  communication_error :: "jv \<Rightarrow> jv list"
  form_reply :: "string \<Rightarrow> 'c form_result"
  initial_data_reply :: "string option \<Rightarrow> http_result"
  submit_reply :: http_result

definition responses_of :: "(jv \<Rightarrow> jv list) \<Rightarrow> http_result \<Rightarrow> jv list" where
  "responses_of show_communication_error reply =
     (case reply of Http_Ok response \<Rightarrow> [response] | Http_Failed err \<Rightarrow> show_communication_error err)"

definition error_effects :: "http_result \<Rightarrow> effect list" where
  "error_effects reply =
     (case reply of Http_Ok response \<Rightarrow> [] | Http_Failed err \<Rightarrow> [Show_Communication_Error err])"

text \<open>\<open>httpClient.get(url).pipe(catchError(error => show_communication_error(error)))\<close>:
  the request is issued on subscription and answered later.\<close>

definition http_get :: "(jv \<Rightarrow> jv list) \<Rightarrow> string option \<Rightarrow> http_result \<Rightarrow> jv subscription" where
  "http_get show_communication_error url reply =
     \<lparr>issued = [Http_Get url], delivered = [], failed = None,
      issued_later = error_effects reply,
      delivered_later = responses_of show_communication_error reply\<rparr>"

text \<open>\<open>_download_django_form\<close>: the form of a URL is at \<open>form/\<close> below it; the
  configuration delivered is \<open>{django_url: django_url, ...config}\<close>.\<close>

definition endsWith :: "string \<Rightarrow> string \<Rightarrow> bool" where
  "endsWith s p = (length p \<le> length s \<and> drop (length s - length p) s = p)"

definition add_django_url ::
  "string \<Rightarrow> bool \<times> 'c django_form_config_scheme \<Rightarrow> 'c django_form_config_scheme" where
  "add_django_url url response =
     (if fst response then snd response else (snd response)\<lparr>django_url := Some url\<rparr>)"

definition download_django_form ::
  "'c backend \<Rightarrow> 'c component \<Rightarrow> string \<Rightarrow> 'c django_form_config_scheme subscription" where
  "download_django_form b c url =
     (let django_form_url = (if endsWith url ''/'' then url else url @ ''/'') @ ''form/''
      in map_op (add_django_url url)
           \<lparr>issued = [Http_Get_Form django_form_url (extra_form_data c)],
            delivered = [], failed = None,
            issued_later =
              (case form_reply b django_form_url of
                 Form_Ok own config \<Rightarrow> []
               | Form_Failed err instead \<Rightarrow> [Show_Communication_Error err]),
            delivered_later =
              (case form_reply b django_form_url of
                 Form_Ok own config \<Rightarrow> [(own, config)]
               | Form_Failed err instead \<Rightarrow> instead)\<rparr>)"

text \<open>
  \<open>ngOnInit\<close> assigns \<open>config$\<close>. The first \<open>merge\<close> takes the downloads for the
  truthy values of \<open>url$\<close> and the field \<open>config$\<close> as it is at that moment; the subject
  \<open>_config$\<close>, which the input \<open>config\<close> feeds, is not read. The two observables of
  \<open>partition\<close> are the filters of the merged one by \<open>has_initial_data\<close> and by its
  negation. A configuration of the first goes through the \<open>mergeMap\<close>: one GET to its
  \<open>django_url\<close>, the response through \<open>initial_data_transformation\<close> and into the field
  \<open>initial_data\<close> of a copy. Every configuration goes through
  \<open>config_transformation\<close>.
\<close>

definition load_initial_data ::
  "'c backend \<Rightarrow> 'c component \<Rightarrow> 'c django_form_config_scheme
     \<Rightarrow> 'c django_form_config_scheme subscription" where
  "load_initial_data b c cfg =
     map_op (\<lambda>response. cfg\<lparr>initial_data := Some response\<rparr>)
       (map_op (initial_data_transformation c)
          (http_get (communication_error b) (django_url cfg)
             (initial_data_reply b (django_url cfg))))"

definition ngOnInit :: "'c backend \<Rightarrow> 'c component \<Rightarrow> 'c component" where
  "ngOnInit b c =
     (let merged = observable_merge
            [Some (merge_map
                     (\<lambda>u. case u of None \<Rightarrow> silent | Some url \<Rightarrow> download_django_form b c url)
                     (filter_op (\<lambda>u. case u of None \<Rightarrow> False | Some url \<Rightarrow> url \<noteq> [])
                        (behavior_subject (url_subject c)))),
             config_stream c];
          configs_0 = filter_op has_initial_data merged;
          configs_1 = filter_op (\<lambda>x. \<not> has_initial_data x) merged
      in c\<lparr>config_stream :=
             Some (map_op (config_transformation c)
                     (observable_merge
                        [Some (merge_map (load_initial_data b c) configs_0),
                         Some configs_1]))\<rparr>)"

section \<open>Submission: \<open>submitted\<close>\<close>

text \<open>
  The method \<open>submit_to_django\<close> as a whole: \<open>this.config$.first().subscribe(...)\<close>
  with the body above as the function subscribed. Reading \<open>first\<close> off an \<open>undefined\<close>
  field throws.
\<close>

definition submit_to_django_call ::
  "'c backend \<Rightarrow> 'c component \<Rightarrow> heap \<Rightarrow> jsval \<Rightarrow> effect list \<times> error option" where
  "submit_to_django_call b c h data =
     (case config_stream c of
        None \<Rightarrow> ([], Some (TypeError ''Cannot read property first of undefined''))
      | Some s \<Rightarrow>
          (case first_subscribe s of
             (effects, Next config) \<Rightarrow>
               (case submit_to_django (extra_form_data c) (communication_error b) config
                       (submit_reply b) h data of
                  (emitted, err) \<Rightarrow> (effects @ emitted, err))
           | (effects, Throws e) \<Rightarrow> (effects, Some e)
           | (effects, Nothing) \<Rightarrow> (effects, None)))"

text \<open>
  \<open>submitted(button_id, is_cancel)\<close>, with \<open>this.form.value\<close> the object at
  \<open>form_value\<close>. \<open>Object.assign({}, this.form.value)\<close> allocates the copy at the end of
  the store. The result is the store, the effects and the error thrown, if any, or
  \<open>None\<close> when the depth bound of \<open>_flatten\<close> is exceeded.
\<close>

definition submitted ::
  "nat \<Rightarrow> 'c backend \<Rightarrow> 'c component \<Rightarrow> addr \<Rightarrow> prim \<Rightarrow> prim \<Rightarrow> heap
     \<Rightarrow> (heap \<times> effect list \<times> error option) option" where
  "submitted n b c form_value button_id is_cancel h =
     (let value = length h;
          h0 = h @ [object_assign [] (h ! form_value)]
      in case flatten n None (Ref value) None h0 of
           None \<Rightarrow> None
         | Some (h1, Some e) \<Rightarrow> Some (h1, [], Some e)
         | Some (h1, None) \<Rightarrow>
             (let h2 = (if truthy_prim button_id
                        then h1[value := put_prop (property_key button_id) (Prim (JBool True)) (h1 ! value)]
                        else h1)
              in if truthy_prim is_cancel then Some (h2, [Emit_Cancel (Ref value)], None)
                 else Some (h2, submit_to_django_call b c h2 (Ref value))))"


section \<open>Notions used to state the properties\<close>

text \<open>
  The normalized record as the specification words it: a pair gives \<open>id\<close> and \<open>label\<close>,
  the label being the id when absent; a bare scalar is both; an object gives its
  \<open>id\<close>, \<open>label\<close>, \<open>color\<close> and \<open>cancel\<close>, the colour being \<open>primary\<close> when it has
  none (none being any falsy colour). A record without \<open>cancel\<close> is one whose
  \<open>cancel\<close> is \<open>undefined\<close>.
\<close>

definition normalized :: "jv \<Rightarrow> action_record" where
  "normalized d =
     (case d of
        Arr xs \<Rightarrow>
          \<lparr>id_prop = element xs 0,
           label_prop = (if element xs 1 = undefined_jv then element xs 0 else element xs 1),
           color_prop = Scalar (JStr ''primary''), cancel_prop = undefined_jv\<rparr>
      | Scalar p \<Rightarrow>
          \<lparr>id_prop = d, label_prop = d, color_prop = Scalar (JStr ''primary''),
           cancel_prop = undefined_jv\<rparr>
      | Obj ps \<Rightarrow>
          \<lparr>id_prop = field d ''id'', label_prop = field d ''label'',
           color_prop = (if truthy (field d ''color'') then field d ''color''
                         else Scalar (JStr ''primary'')),
           cancel_prop = field d ''cancel''\<rparr>)"

text \<open>The descriptors \<open>null\<close> and \<open>undefined\<close>.\<close>

definition nullish :: "jv \<Rightarrow> bool" where
  "nullish d = (d = Scalar JUndefined \<or> d = Scalar JNull)"

definition properties :: "props option \<Rightarrow> props" where
  "properties x = (case x of None \<Rightarrow> [] | Some ps \<Rightarrow> ps)"

definition is_emission :: "effect \<Rightarrow> bool" where
  "is_emission e = (case e of Emit_Submit d r \<Rightarrow> True | Emit_Cancel d \<Rightarrow> True | _ \<Rightarrow> False)"


text \<open>An object that holds an object under a marker name: \<open>_flatten\<close>, when it visits
  it, hoists into it.\<close>

definition is_object :: "jsval \<Rightarrow> bool" where
  "is_object v = (case v of Ref a \<Rightarrow> True | Prim p \<Rightarrow> False)"

definition holds_marker_object :: "props \<Rightarrow> bool" where
  "holds_marker_object ps = (\<exists>e \<in> set ps. is_marker (fst e) \<and> is_object (snd e))"


section \<open>Payload trees\<close>

text \<open>
  A payload tree is a form value seen as a value: a scalar, or an object given by its
  fields in creation order, each a payload tree.
\<close>

datatype tree = Leaf prim | Node "(string \<times> tree) list"

type_synonym fields = "(string \<times> tree) list"

definition get_field :: "fields \<Rightarrow> string \<Rightarrow> tree" where
  "get_field fs k = (case map_of fs k of None \<Rightarrow> Leaf JUndefined | Some t \<Rightarrow> t)"

text \<open>
  The store holds the tree \<open>t\<close> at the value \<open>v\<close> when the objects reached from \<open>v\<close>
  have the fields of \<open>t\<close>, with the same names in the same order, and no object is
  reached twice: \<open>fp\<close> is the set of the objects reached, and the sets of two fields of
  an object are disjoint. Property names are distinct in every object.
\<close>

fun fp :: "heap \<Rightarrow> jsval \<Rightarrow> tree \<Rightarrow> addr set"
and fps :: "heap \<Rightarrow> props \<Rightarrow> fields \<Rightarrow> addr set" where
  "fp h (Ref a) (Node fs) = insert a (fps h (h ! a) fs)"
| "fp h v t = {}"
| "fps h ((k, v) # ps) ((k', t) # fs) = fp h v t \<union> fps h ps fs"
| "fps h ps fs = {}"

fun repr :: "heap \<Rightarrow> jsval \<Rightarrow> tree \<Rightarrow> bool"
and reprs :: "heap \<Rightarrow> props \<Rightarrow> fields \<Rightarrow> bool" where
  "repr h (Prim p) (Leaf q) = (p = q)"
| "repr h (Ref a) (Node fs) =
     (a < length h \<and> distinct (map fst fs) \<and> reprs h (h ! a) fs \<and> a \<notin> fps h (h ! a) fs)"
| "repr h v t = False"
| "reprs h [] [] = True"
| "reprs h ((k, v) # ps) ((k', t) # fs) =
     (k = k' \<and> repr h v t \<and> reprs h ps fs \<and> fp h v t \<inter> fps h ps fs = {})"
| "reprs h ps fs = False"

text \<open>The nesting depth of a tree: the depth of calls that \<open>_flatten\<close> needs on it.\<close>

fun depth :: "tree \<Rightarrow> nat" and depths :: "fields \<Rightarrow> nat" where
  "depth (Leaf p) = 0"
| "depth (Node fs) = Suc (depths fs)"
| "depths [] = 0"
| "depths ((k, t) # fs) = max (depth t) (depths fs)"

text \<open>
  What \<open>_flatten\<close> computes, on trees. The fields of an object are flattened first;
  then, for each of the names that the object had to begin with, in the order of
  \<open>Object.getOwnPropertyNames\<close>: when the field that the object has under that name at
  that moment is a nested object and the name is a marker name, the fields of the nested
  object are assigned into the object, one by one, and the name is deleted. An assignment
  to a name that the object has already replaces the field in place.
\<close>

definition hoist_step :: "string \<Rightarrow> fields \<Rightarrow> fields" where
  "hoist_step k fs =
     (case map_of fs k of
        Some (Node gs) \<Rightarrow>
          if is_marker k
          then delete_prop k (put_from (get_field gs) (own_property_names gs) fs)
          else fs
      | _ \<Rightarrow> fs)"

fun flat :: "tree \<Rightarrow> tree" and flats :: "fields \<Rightarrow> fields" where
  "flat (Leaf p) = Leaf p"
| "flat (Node fs) = Node (fold hoist_step (own_property_names fs) (flats fs))"
| "flats [] = []"
| "flats ((k, t) # fs) = (k, flat t) # flats fs"

text \<open>
  The first loop of \<open>_flatten\<close> seen on trees: the visit of one name flattens the field
  the object has under that name at that moment, and hoists it when it is a nested
  object under a marker name.
\<close>

definition visit :: "string \<Rightarrow> fields \<Rightarrow> fields" where
  "visit k fs =
     (case map_of fs k of
        None \<Rightarrow> fs
      | Some t \<Rightarrow> hoist_step k (set_prop k (flat t) fs))"

text \<open>Trees with distinct names in every object; trees that flattening leaves alone
  (no nested object under a marker name); trees with no marker name at all.\<close>

fun distinct_names :: "tree \<Rightarrow> bool" and distinct_names_fields :: "fields \<Rightarrow> bool" where
  "distinct_names (Leaf p) = True"
| "distinct_names (Node fs) = (distinct (map fst fs) \<and> distinct_names_fields fs)"
| "distinct_names_fields [] = True"
| "distinct_names_fields ((k, t) # fs) = (distinct_names t \<and> distinct_names_fields fs)"

fun is_leaf :: "tree \<Rightarrow> bool" where
  "is_leaf (Leaf p) = True"
| "is_leaf (Node fs) = False"

fun settled :: "tree \<Rightarrow> bool" and settleds :: "fields \<Rightarrow> bool" where
  "settled (Leaf p) = True"
| "settled (Node fs) = settleds fs"
| "settleds [] = True"
| "settleds ((k, t) # fs) = ((is_leaf t \<or> \<not> is_marker k) \<and> settled t \<and> settleds fs)"

fun no_marker :: "tree \<Rightarrow> bool" and no_markers :: "fields \<Rightarrow> bool" where
  "no_marker (Leaf p) = True"
| "no_marker (Node fs) = no_markers fs"
| "no_markers [] = True"
| "no_markers ((k, t) # fs) = (\<not> startsWith k ''generated_'' \<and> no_marker t \<and> no_markers fs)"

text \<open>
  What a call of \<open>_flatten\<close> under the name \<open>k\<close> on the value \<open>v\<close> leaves in the
  properties \<open>ps\<close> of its parent, \<open>h\<close> being the store after the call: the properties of
  the object at \<open>v\<close> assigned into \<open>ps\<close> and \<open>k\<close> deleted when \<open>k\<close> is a marker name
  and \<open>v\<close> an object, \<open>ps\<close> itself otherwise.
\<close>

definition hoisted :: "string \<Rightarrow> jsval \<Rightarrow> heap \<Rightarrow> props \<Rightarrow> props" where
  "hoisted k v h ps =
     (case v of
        Prim p \<Rightarrow> ps
      | Ref a \<Rightarrow>
          if is_marker k
          then delete_prop k (put_from (get_prop (h ! a)) (own_property_names (h ! a)) ps)
          else ps)"

text \<open>
  The snapshot that \<open>Object.assign({}, this.form.value)\<close> takes of an object with the
  fields \<open>fs\<close>: its fields assigned to a fresh object in the order of the property
  names. The payload after \<open>value[button_id] = true\<close>, which is done when the button
  has a truthy id.
\<close>

definition snapshot :: "fields \<Rightarrow> fields" where
  "snapshot fs = put_from (get_field fs) (own_property_names fs) []"

definition with_button :: "prim \<Rightarrow> tree \<Rightarrow> tree" where
  "with_button button_id t =
     (case t of
        Leaf p \<Rightarrow> t
      | Node fs \<Rightarrow>
          if truthy_prim button_id
          then Node (put_prop (property_key button_id) (Leaf (JBool True)) fs)
          else t)"

text \<open>
  Flattening as the specification words it. Bottom-up: the fields of an object are
  flattened first; then every field that is a nested object under a name with the prefix
  \<open>generated_\<close> is taken out, and the own fields of these nested objects are added to
  the object: the result has the fields that are kept, followed by the own fields of the
  nested objects, in the order of the names.
\<close>

definition hoistable :: "string \<times> tree \<Rightarrow> bool" where
  "hoistable e = (is_marker (fst e) \<and> \<not> is_leaf (snd e))"

definition own_fields :: "tree \<Rightarrow> fields" where
  "own_fields t =
     (case t of
        Leaf p \<Rightarrow> []
      | Node gs \<Rightarrow> map (\<lambda>k. (k, get_field gs k)) (own_property_names gs))"

definition lifted :: "fields \<Rightarrow> string list \<Rightarrow> fields" where
  "lifted fs ks =
     concat (map (\<lambda>k. case map_of fs k of
                         None \<Rightarrow> []
                       | Some t \<Rightarrow> if hoistable (k, t) then own_fields t else []) ks)"

fun expected :: "tree \<Rightarrow> tree" and expecteds :: "fields \<Rightarrow> fields" where
  "expected (Leaf p) = Leaf p"
| "expected (Node fs) =
     Node (filter (\<lambda>e. \<not> hoistable e) (expecteds fs)
           @ lifted (expecteds fs) (own_property_names fs))"
| "expecteds [] = []"
| "expecteds ((k, t) # fs) = (k, expected t) # expecteds fs"


text \<open>The names among \<open>ks\<close> that an assignment into an object with the properties
  \<open>ps\<close> defines: all of them, but for \<open>__proto__\<close> when the object has no such
  property.\<close>

definition assigned :: "(string \<times> 'v) list \<Rightarrow> string list \<Rightarrow> string list" where
  "assigned ps ks = (if ''__proto__'' \<in> set (map fst ps) then ks else removeAll ''__proto__'' ks)"


section \<open>Property lists and trees\<close>

lemma set_own_property_names: "set (own_property_names ps) = fst ` set ps"
  by (auto simp: own_property_names_def)

lemma distinct_own_property_names:
  "distinct (map fst ps) \<Longrightarrow> distinct (own_property_names ps)"
  by (auto simp: own_property_names_def)

lemma own_property_names_cong:
  "map fst ps = map fst qs \<Longrightarrow> own_property_names ps = own_property_names qs"
  by (simp add: own_property_names_def)

lemma set_set_prop:
  "distinct (map fst al) \<Longrightarrow>
   set (set_prop k v al) = insert (k, v) {e \<in> set al. fst e \<noteq> k}"
  unfolding set_prop_def
  by (induction al) (auto simp: rev_image_eqI)

lemma set_delete_prop: "set (delete_prop k al) = {e \<in> set al. fst e \<noteq> k}"
  by (auto simp: delete_prop_def AList.delete_eq)

lemma distinct_set_prop:
  "distinct (map fst al) \<Longrightarrow> distinct (map fst (set_prop k v al))"
  by (simp add: set_prop_def distinct_update)

lemma distinct_delete_prop:
  "distinct (map fst al) \<Longrightarrow> distinct (map fst (delete_prop k al))"
  by (simp add: delete_prop_def distinct_delete)

lemma distinct_assign_from:
  "distinct (map fst al) \<Longrightarrow> distinct (map fst (assign_from rd ks al))"
  unfolding assign_from_def
  by (induction ks arbitrary: al) (simp_all add: distinct_set_prop)

lemma set_assign_from:
  "distinct (map fst al) \<Longrightarrow>
   set (assign_from rd ks al) = {(k, rd k) | k. k \<in> set ks} \<union> {e \<in> set al. fst e \<notin> set ks}"
  unfolding assign_from_def
proof (induction ks arbitrary: al)
  case Nil
  then show ?case by simp
next
  case (Cons k ks)
  have d: "distinct (map fst (set_prop k (rd k) al))" using Cons.prems by (rule distinct_set_prop)
  show ?case
    unfolding fold_simps Cons.IH [OF d] set_set_prop [OF Cons.prems]
    by auto
qed

lemma assign_from_cong:
  "(\<And>k. k \<in> set ks \<Longrightarrow> rd k = rd' k) \<Longrightarrow> assign_from rd ks al = assign_from rd' ks al"
  unfolding assign_from_def
  by (induction ks arbitrary: al) simp_all

text \<open>Assignment is definition, on the names that it defines.\<close>

lemma keys_set_prop: "set (map fst (set_prop k v ps)) = insert k (set (map fst ps))"
  unfolding set_prop_def by (induction ps) auto

lemma assigned_set_prop:
  "k \<noteq> ''__proto__'' \<or> ''__proto__'' \<in> set (map fst ps)
     \<Longrightarrow> assigned (set_prop k v ps) ks = assigned ps ks"
  unfolding assigned_def keys_set_prop by auto

lemma put_from_assign_from: "put_from rd ks ps = assign_from rd (assigned ps ks) ps"
proof (induction ks arbitrary: ps)
  case Nil
  then show ?case by (simp add: put_from_def assign_from_def assigned_def)
next
  case (Cons k ks)
  show ?case
  proof (cases "k = ''__proto__'' \<and> ''__proto__'' \<notin> set (map fst ps)")
    case True
    then have "put_from rd (k # ks) ps = put_from rd ks ps"
      by (simp add: put_from_def put_prop_def)
    moreover from True have "assigned ps (k # ks) = assigned ps ks"
      by (simp add: assigned_def)
    ultimately show ?thesis using Cons.IH [of ps] by simp
  next
    case False
    then have "put_from rd (k # ks) ps = put_from rd ks (set_prop k (rd k) ps)"
      by (auto simp: put_from_def put_prop_def)
    moreover from False have "assigned ps (k # ks) = k # assigned ps ks"
      by (auto simp: assigned_def)
    moreover from False have "assigned (set_prop k (rd k) ps) ks = assigned ps ks"
      by (intro assigned_set_prop) auto
    ultimately show ?thesis using Cons.IH [of "set_prop k (rd k) ps"]
      by (simp add: assign_from_def)
  qed
qed

lemma assigned_cong: "map fst ps = map fst qs \<Longrightarrow> assigned ps ks = assigned qs ks"
  by (simp add: assigned_def)

lemma set_assigned: "set (assigned ps ks) \<subseteq> set ks"
  by (auto simp: assigned_def)

lemma distinct_assigned: "distinct ks \<Longrightarrow> distinct (assigned ps ks)"
  by (simp add: assigned_def distinct_removeAll)

lemma distinct_put_from:
  "distinct (map fst al) \<Longrightarrow> distinct (map fst (put_from rd ks al))"
  by (simp add: put_from_assign_from distinct_assign_from)

lemma set_put_from_cases:
  assumes "distinct (map fst al)" and "e \<in> set (put_from rd ks al)"
  shows "(\<exists>k \<in> set ks. e = (k, rd k)) \<or> e \<in> set al"
  using assms set_assigned [of al ks]
  by (auto simp: put_from_assign_from set_assign_from)

lemma put_from_cong:
  "(\<And>k. k \<in> set ks \<Longrightarrow> rd k = rd' k) \<Longrightarrow> put_from rd ks al = put_from rd' ks al"
  unfolding put_from_assign_from
  using set_assigned [of al ks] by (intro assign_from_cong) auto

lemma distinct_put_prop:
  "distinct (map fst al) \<Longrightarrow> distinct (map fst (put_prop k v al))"
  by (simp add: put_prop_def distinct_set_prop)

lemma map_of_is_SomeI': "distinct (map fst al) \<Longrightarrow> (k, v) \<in> set al \<Longrightarrow> map_of al k = Some v"
  by simp

text \<open>\<open>flats\<close> maps \<open>flat\<close> over the fields.\<close>

lemma flats_map: "flats fs = map (\<lambda>e. (fst e, flat (snd e))) fs"
  by (induction fs) auto

lemma map_fst_flats: "map fst (flats fs) = map fst fs"
  by (simp add: flats_map comp_def)

lemma map_of_flats: "map_of (flats fs) k = map_option flat (map_of fs k)"
  by (induction fs) auto

lemma flats_set_prop: "flats (set_prop k t fs) = set_prop k (flat t) (flats fs)"
  unfolding set_prop_def by (induction fs) auto

lemma flats_delete_prop: "flats (delete_prop k fs) = delete_prop k (flats fs)"
  unfolding delete_prop_def by (induction fs) auto

lemma flats_assign_from:
  "flats (assign_from rd ks fs) = assign_from (\<lambda>k. flat (rd k)) ks (flats fs)"
  unfolding assign_from_def
  by (induction ks arbitrary: fs) (simp_all add: flats_set_prop)

lemma flats_put_from:
  "flats (put_from rd ks fs) = put_from (\<lambda>k. flat (rd k)) ks (flats fs)"
  unfolding put_from_assign_from flats_assign_from
  by (simp add: assigned_cong [OF map_fst_flats])

lemma settleds_iff:
  "settleds fs \<longleftrightarrow> (\<forall>e \<in> set fs. (is_leaf (snd e) \<or> \<not> is_marker (fst e)) \<and> settled (snd e))"
  by (induction fs) auto

lemma distinct_names_fields_iff: "distinct_names_fields fs \<longleftrightarrow> (\<forall>e \<in> set fs. distinct_names (snd e))"
  by (induction fs) auto

lemma depths_le_iff: "depths fs \<le> d \<longleftrightarrow> (\<forall>e \<in> set fs. depth (snd e) \<le> d)"
  by (induction fs) auto

lemma depth_field_less: "e \<in> set fs \<Longrightarrow> depth (snd e) < depth (Node fs)"
  using depths_le_iff [of fs "depths fs"] by (auto simp: less_Suc_eq_le)

text \<open>A settled tree is a fixed point of \<open>flat\<close>.\<close>

lemma hoist_step_settled: "settleds fs \<Longrightarrow> hoist_step k fs = fs"
proof -
  assume s: "settleds fs"
  { fix gs assume "map_of fs k = Some (Node gs)"
    then have "(k, Node gs) \<in> set fs" by (rule map_of_SomeD)
    with s have "\<not> is_marker k" by (auto simp: settleds_iff) }
  then show ?thesis by (auto simp: hoist_step_def split: option.splits tree.splits)
qed

lemma fold_hoist_step_settled: "settleds fs \<Longrightarrow> fold hoist_step ks fs = fs"
  by (induction ks) (simp_all add: hoist_step_settled)

lemma flat_settled: "settled t \<Longrightarrow> flat t = t"
  and flats_settled: "settleds fs \<Longrightarrow> flats fs = fs"
  by (induction t and fs rule: flat_flats.induct) (simp_all add: fold_hoist_step_settled)

text \<open>Flattening does not deepen a tree.\<close>

lemma depths_hoist_step: "depths fs \<le> d \<Longrightarrow> distinct (map fst fs) \<Longrightarrow> depths (hoist_step k fs) \<le> d"
proof -
  assume d: "depths fs \<le> d" and dist: "distinct (map fst fs)"
  { fix gs assume m: "map_of fs k = Some (Node gs)"
    then have "(k, Node gs) \<in> set fs" by (rule map_of_SomeD)
    with d have "depth (Node gs) \<le> d" by (auto simp: depths_le_iff)
    then have g: "\<forall>e \<in> set gs. depth (snd e) \<le> d"
      using depth_field_less [of _ gs] by fastforce
    have "\<And>k'. k' \<in> set (own_property_names gs) \<Longrightarrow> depth (get_field gs k') \<le> d"
    proof -
      fix k' assume "k' \<in> set (own_property_names gs)"
      then obtain t where "map_of gs k' = Some t"
        by (metis set_own_property_names map_of_eq_None_iff not_Some_eq)
      then show "depth (get_field gs k') \<le> d" using g map_of_SomeD [of gs k' t]
        by (force simp: get_field_def)
    qed
    then have "\<And>e. e \<in> set (put_from (get_field gs) (own_property_names gs) fs)
        \<Longrightarrow> depth (snd e) \<le> d"
      using set_put_from_cases [OF dist] d by (fastforce simp: depths_le_iff)
    then have "depths (delete_prop k (put_from (get_field gs) (own_property_names gs) fs)) \<le> d"
      by (auto simp: depths_le_iff set_delete_prop) }
  with d show ?thesis by (auto simp: hoist_step_def split: option.splits tree.splits)
qed

lemma distinct_hoist_step: "distinct (map fst fs) \<Longrightarrow> distinct (map fst (hoist_step k fs))"
  by (auto simp: hoist_step_def distinct_delete_prop distinct_put_from split: option.splits tree.splits)

lemma depths_fold_hoist_step:
  "depths fs \<le> d \<Longrightarrow> distinct (map fst fs) \<Longrightarrow> depths (fold hoist_step ks fs) \<le> d"
  by (induction ks arbitrary: fs) (simp_all add: depths_hoist_step distinct_hoist_step)

lemma depth_flat: "distinct_names t \<Longrightarrow> depth (flat t) \<le> depth t"
  and depths_flats: "distinct_names_fields fs \<Longrightarrow> depths (flats fs) \<le> depths fs"
proof (induction t and fs rule: flat_flats.induct)
  case (2 fs)
  then show ?case by (simp add: depths_fold_hoist_step map_fst_flats)
qed auto


section \<open>Properties of the action-list normalizer\<close>

lemma pushed_object_normalized:
  "\<not> nullish d \<Longrightarrow> pushed_object d = Inr (normalized d)"
proof (cases d)
  case (Scalar p)
  assume "\<not> nullish d"
  with Scalar show ?thesis
    by (cases p) (simp_all add: pushed_object_def action_locals_def normalized_def nullish_def)
qed (simp_all add: pushed_object_def action_locals_def normalized_def field_def Let_def)

lemma actions_loop_map:
  "\<forall>d \<in> set ds. \<not> nullish d \<Longrightarrow> actions_loop ds ret = Inr (ret @ map normalized ds)"
  by (induction ds arbitrary: ret) (simp_all add: pushed_object_normalized)

lemma pushed_object_nullish:
  "nullish d \<Longrightarrow> \<exists>msg. pushed_object d = Inl (TypeError msg)"
  by (auto simp: nullish_def pushed_object_def action_locals_def)

lemma actions_loop_nullish:
  "\<exists>d \<in> set ds. nullish d \<Longrightarrow> \<exists>msg. actions_loop ds ret = Inl (TypeError msg)"
proof (induction ds arbitrary: ret)
  case Nil
  then show ?case by simp
next
  case (Cons d ds)
  show ?case
  proof (cases "nullish d")
    case True
    from pushed_object_nullish [OF True] show ?thesis by auto
  next
    case False
    with Cons.prems have "\<exists>d \<in> set ds. nullish d" by simp
    from Cons.IH [OF this, of "ret @ [normalized d]"] False show ?thesis
      by (simp add: pushed_object_normalized)
  qed
qed

lemma pushed_object_cancel:
  "pushed_object d = Inr r \<Longrightarrow> member d ''cancel'' = Inr (cancel_prop r)"
  by (auto simp: pushed_object_def split: prod.splits sum.splits)

lemma member_cancel_undefined:
  "member d ''cancel'' = Inr c \<Longrightarrow> is_primitive d \<or> isArray d \<Longrightarrow> c = undefined_jv"
  by (cases "(d, ''cancel'')" rule: member.cases) auto

lemma actions_loop_Inr:
  "actions_loop ds ret = Inr recs \<Longrightarrow>
   \<exists>rs. recs = ret @ rs \<and> length rs = length ds \<and>
        (\<forall>i < length ds. pushed_object (ds ! i) = Inr (rs ! i))"
proof (induction ds arbitrary: ret)
  case Nil
  then show ?case by simp
next
  case (Cons d ds)
  from Cons.prems obtain r where r: "pushed_object d = Inr r"
    and rest: "actions_loop ds (ret @ [r]) = Inr recs"
    by (auto split: sum.splits)
  from Cons.IH [OF rest] obtain rs where rs: "recs = (ret @ [r]) @ rs" "length rs = length ds"
    "\<forall>i < length ds. pushed_object (ds ! i) = Inr (rs ! i)" by blast
  have "\<forall>i < length (d # ds). pushed_object ((d # ds) ! i) = Inr ((r # rs) ! i)"
    using r rs(3) by (auto simp: nth_Cons split: nat.splits)
  with rs show ?case by (intro exI [of _ "r # rs"]) simp
qed

text \<open>
  C7, as stated, is false for the descriptors \<open>null\<close> and \<open>undefined\<close>, which are
  bare scalars: the record pushed reads \<open>action.cancel\<close> off the descriptor itself, and
  on \<open>null\<close> or \<open>undefined\<close> that read throws, so that the list
  \<open>["save", null]\<close> gives no records at all.
\<close>

theorem generate_actions_null_counterexample:
  "generate_actions (Arr [Scalar (JStr ''save''), Scalar JNull])
     = Inl (TypeError ''Cannot read property of null'')
   \<and> generate_actions (Arr [Scalar JUndefined])
     = Inl (TypeError ''Cannot read property of undefined'')
   \<and> is_primitive (Scalar JNull) \<and> is_primitive (Scalar JUndefined)"
  by (simp add: generate_actions_def pushed_object_def action_locals_def)

text \<open>
  C7, amended. \<open>_generate_actions\<close> maps the descriptors other than \<open>null\<close> and
  \<open>undefined\<close>, in order, to their normalized records: a pair to its id and label (the
  label being the id when absent), a bare scalar to itself as id and label, an object to
  its id, label, colour and cancel, the colour \<open>primary\<close> by default; with a \<open>null\<close>
  or \<open>undefined\<close> descriptor in the list it throws a \<open>TypeError\<close>. The list
  \<open>["save", ["cancel", "Go Back"], {id: "x", label: "X", color: "warn", cancel: true}]\<close>
  gives the three records of the specification, the first two with no \<open>cancel\<close> (it is
  \<open>undefined\<close>); the object \<open>{id: "x", label: "X"}\<close>, and the same object with an
  empty colour, get the colour \<open>primary\<close>.
\<close>

theorem generate_actions_normalizes:
  "((\<forall>d \<in> set ds. \<not> nullish d) \<longrightarrow> generate_actions (Arr ds) = Inr (map normalized ds))
   \<and> ((\<exists>d \<in> set ds. nullish d) \<longrightarrow> (\<exists>msg. generate_actions (Arr ds) = Inl (TypeError msg)))
   \<and> generate_actions
        (Arr [Scalar (JStr ''save''),
              Arr [Scalar (JStr ''cancel''), Scalar (JStr ''Go Back'')],
              Obj [(''id'', Scalar (JStr ''x'')), (''label'', Scalar (JStr ''X'')),
                   (''color'', Scalar (JStr ''warn'')), (''cancel'', Scalar (JBool True))]])
      = Inr [\<lparr>id_prop = Scalar (JStr ''save''), label_prop = Scalar (JStr ''save''),
               color_prop = Scalar (JStr ''primary''), cancel_prop = Scalar JUndefined\<rparr>,
             \<lparr>id_prop = Scalar (JStr ''cancel''), label_prop = Scalar (JStr ''Go Back''),
               color_prop = Scalar (JStr ''primary''), cancel_prop = Scalar JUndefined\<rparr>,
             \<lparr>id_prop = Scalar (JStr ''x''), label_prop = Scalar (JStr ''X''),
               color_prop = Scalar (JStr ''warn''), cancel_prop = Scalar (JBool True)\<rparr>]
   \<and> generate_actions
        (Arr [Obj [(''id'', Scalar (JStr ''x'')), (''label'', Scalar (JStr ''X''))],
              Obj [(''id'', Scalar (JStr ''x'')), (''label'', Scalar (JStr ''X'')),
                   (''color'', Scalar (JStr []))]])
      = Inr [\<lparr>id_prop = Scalar (JStr ''x''), label_prop = Scalar (JStr ''X''),
               color_prop = Scalar (JStr ''primary''), cancel_prop = Scalar JUndefined\<rparr>,
             \<lparr>id_prop = Scalar (JStr ''x''), label_prop = Scalar (JStr ''X''),
               color_prop = Scalar (JStr ''primary''), cancel_prop = Scalar JUndefined\<rparr>]"
proof (intro conjI)
  show "(\<forall>d \<in> set ds. \<not> nullish d) \<longrightarrow> generate_actions (Arr ds) = Inr (map normalized ds)"
    by (simp add: generate_actions_def actions_loop_map)
next
  show "(\<exists>d \<in> set ds. nullish d) \<longrightarrow> (\<exists>msg. generate_actions (Arr ds) = Inl (TypeError msg))"
    using actions_loop_nullish [of ds "[]"] by (simp add: generate_actions_def)
next
  show "generate_actions
        (Arr [Scalar (JStr ''save''),
              Arr [Scalar (JStr ''cancel''), Scalar (JStr ''Go Back'')],
              Obj [(''id'', Scalar (JStr ''x'')), (''label'', Scalar (JStr ''X'')),
                   (''color'', Scalar (JStr ''warn'')), (''cancel'', Scalar (JBool True))]])
      = Inr [\<lparr>id_prop = Scalar (JStr ''save''), label_prop = Scalar (JStr ''save''),
               color_prop = Scalar (JStr ''primary''), cancel_prop = Scalar JUndefined\<rparr>,
             \<lparr>id_prop = Scalar (JStr ''cancel''), label_prop = Scalar (JStr ''Go Back''),
               color_prop = Scalar (JStr ''primary''), cancel_prop = Scalar JUndefined\<rparr>,
             \<lparr>id_prop = Scalar (JStr ''x''), label_prop = Scalar (JStr ''X''),
               color_prop = Scalar (JStr ''warn''), cancel_prop = Scalar (JBool True)\<rparr>]"
    by (simp add: generate_actions_def pushed_object_def action_locals_def element_def
        field_def undefined_jv_def)
next
  show "generate_actions
        (Arr [Obj [(''id'', Scalar (JStr ''x'')), (''label'', Scalar (JStr ''X''))],
              Obj [(''id'', Scalar (JStr ''x'')), (''label'', Scalar (JStr ''X'')),
                   (''color'', Scalar (JStr []))]])
      = Inr [\<lparr>id_prop = Scalar (JStr ''x''), label_prop = Scalar (JStr ''X''),
               color_prop = Scalar (JStr ''primary''), cancel_prop = Scalar JUndefined\<rparr>,
             \<lparr>id_prop = Scalar (JStr ''x''), label_prop = Scalar (JStr ''X''),
               color_prop = Scalar (JStr ''primary''), cancel_prop = Scalar JUndefined\<rparr>]"
    by (simp add: generate_actions_def pushed_object_def action_locals_def element_def
        field_def undefined_jv_def)
qed

theorem generate_actions_normalizes_witness:
  "\<not> nullish (Scalar (JNum 7)) \<and> \<not> nullish (Arr [Scalar (JStr ''ok'')])
   \<and> generate_actions (Arr [Scalar (JNum 7), Arr [Scalar (JStr ''ok'')]])
     = Inr [\<lparr>id_prop = Scalar (JNum 7), label_prop = Scalar (JNum 7),
              color_prop = Scalar (JStr ''primary''), cancel_prop = Scalar JUndefined\<rparr>,
            \<lparr>id_prop = Scalar (JStr ''ok''), label_prop = Scalar (JStr ''ok''),
              color_prop = Scalar (JStr ''primary''), cancel_prop = Scalar JUndefined\<rparr>]"
proof -
  have n: "\<forall>d \<in> set [Scalar (JNum 7), Arr [Scalar (JStr ''ok'')]]. \<not> nullish d"
    by (simp add: nullish_def)
  from generate_actions_normalizes [of "[Scalar (JNum 7), Arr [Scalar (JStr ''ok'')]]"] n
  have "generate_actions (Arr [Scalar (JNum 7), Arr [Scalar (JStr ''ok'')]])
      = Inr (map normalized [Scalar (JNum 7), Arr [Scalar (JStr ''ok'')]])" by blast
  then show ?thesis
    by (simp add: nullish_def normalized_def element_def undefined_jv_def)
qed

text \<open>
  C10. Whenever \<open>_generate_actions\<close> returns, the \<open>cancel\<close> of each record is what
  \<open>action.cancel\<close> reads off the raw descriptor; for a scalar or a pair that is
  \<open>undefined\<close>, not the \<open>false\<close> of the local \<open>action_cancel\<close>.
\<close>

theorem generate_actions_cancel:
  assumes "generate_actions (Arr ds) = Inr recs"
  shows "length recs = length ds \<and>
         (\<forall>i < length ds. member (ds ! i) ''cancel'' = Inr (cancel_prop (recs ! i))) \<and>
         (\<forall>i < length ds. is_primitive (ds ! i) \<or> isArray (ds ! i) \<longrightarrow>
              cancel_prop (recs ! i) = Scalar JUndefined
              \<and> cancel_prop (recs ! i) \<noteq> Scalar (JBool False))"
proof -
  from assms have "actions_loop ds [] = Inr recs" by (simp add: generate_actions_def)
  from actions_loop_Inr [OF this] have len: "length recs = length ds"
    and each: "\<forall>i < length ds. pushed_object (ds ! i) = Inr (recs ! i)" by auto
  have c: "\<forall>i < length ds. member (ds ! i) ''cancel'' = Inr (cancel_prop (recs ! i))"
    using each pushed_object_cancel by blast
  have "\<forall>i < length ds. is_primitive (ds ! i) \<or> isArray (ds ! i) \<longrightarrow>
              cancel_prop (recs ! i) = undefined_jv"
    using c member_cancel_undefined by blast
  with len c show ?thesis by (simp add: undefined_jv_def)
qed

theorem generate_actions_cancel_witness:
  "generate_actions (Arr [Scalar (JStr ''save''), Arr [Scalar (JStr ''no''), Scalar (JStr ''No'')]])
     = Inr [\<lparr>id_prop = Scalar (JStr ''save''), label_prop = Scalar (JStr ''save''),
              color_prop = Scalar (JStr ''primary''), cancel_prop = Scalar JUndefined\<rparr>,
            \<lparr>id_prop = Scalar (JStr ''no''), label_prop = Scalar (JStr ''No''),
              color_prop = Scalar (JStr ''primary''), cancel_prop = Scalar JUndefined\<rparr>]
   \<and> member (Scalar (JStr ''save'')) ''cancel'' = Inr (Scalar JUndefined)
   \<and> member (Arr [Scalar (JStr ''no''), Scalar (JStr ''No'')]) ''cancel'' = Inr (Scalar JUndefined)"
proof -
  have run: "generate_actions (Arr [Scalar (JStr ''save''), Arr [Scalar (JStr ''no''), Scalar (JStr ''No'')]])
     = Inr [\<lparr>id_prop = Scalar (JStr ''save''), label_prop = Scalar (JStr ''save''),
              color_prop = Scalar (JStr ''primary''), cancel_prop = Scalar JUndefined\<rparr>,
            \<lparr>id_prop = Scalar (JStr ''no''), label_prop = Scalar (JStr ''No''),
              color_prop = Scalar (JStr ''primary''), cancel_prop = Scalar JUndefined\<rparr>]"
    by (simp add: generate_actions_def pushed_object_def action_locals_def element_def
        field_def undefined_jv_def)
  from generate_actions_cancel [OF run] have
    "\<forall>i < 2. member ([Scalar (JStr ''save''), Arr [Scalar (JStr ''no''), Scalar (JStr ''No'')]] ! i) ''cancel''
        = Inr (cancel_prop ([\<lparr>id_prop = Scalar (JStr ''save''), label_prop = Scalar (JStr ''save''),
              color_prop = Scalar (JStr ''primary''), cancel_prop = Scalar JUndefined\<rparr>,
            \<lparr>id_prop = Scalar (JStr ''no''), label_prop = Scalar (JStr ''No''),
              color_prop = Scalar (JStr ''primary''), cancel_prop = Scalar JUndefined\<rparr>] ! i))"
    by simp
  from this [rule_format, of 0] this [rule_format, of 1] run show ?thesis by simp
qed


section \<open>Properties of the submission and of the resolver\<close>

lemma map_of_assign_from:
  "map_of (assign_from rd ks target) k = (if k \<in> set ks then Some (rd k) else map_of target k)"
  unfolding assign_from_def
  by (induction ks arbitrary: target) (auto simp: set_prop_def update_conv)

lemma map_of_spread:
  "map_of (spread (Some source) target) k =
     (case map_of source k of None \<Rightarrow> map_of target k | Some v \<Rightarrow> Some v)"
proof (cases "map_of source k")
  case None
  then have "k \<notin> fst ` set source" by (simp add: map_of_eq_None_iff)
  with None show ?thesis
    by (simp add: spread_def map_of_assign_from set_own_property_names)
next
  case (Some v)
  then have "k \<in> fst ` set source" by (auto dest: map_of_SomeD intro: rev_image_eqI)
  with Some show ?thesis
    by (simp add: spread_def map_of_assign_from set_own_property_names get_prop_def)
qed

lemma spread_None: "spread None target = target"
  by (simp add: spread_def)

lemma map_of_request_body:
  "map_of (request_body extra h data) k =
     (case map_of (properties (props_of h data)) k of
        None \<Rightarrow> map_of (properties extra) k
      | Some v \<Rightarrow> Some v)"
  by (cases extra; cases "props_of h data")
     (simp_all add: request_body_def spread_None properties_def map_of_spread
        split: option.splits)

text \<open>
  C1, as the specification states it, is false: on a name that the extra parameters and
  the payload share, the request body takes the value of the payload. With the extra
  parameters \<open>{a: 1}\<close> and the payload \<open>{a: 2}\<close> the body posted is \<open>{a: 2}\<close>.
\<close>

theorem request_body_extra_wins_counterexample:
  "submit_to_django (Plain (Some [(''a'', Prim (JNum 1))])) (\<lambda>e. [])
      \<lparr>django_url = Some ''/api/'', method = Some ''post'', has_initial_data = False,
       initial_data = None\<rparr>
      (Http_Ok (Scalar JNull)) [[(''a'', Prim (JNum 2))]] (Ref 0)
    = ([Http_Post ''/api/'' [(''a'', Prim (JNum 2))], Snack_Bar_Open ''Saved'',
        Emit_Submit (Ref 0) (Some (Scalar JNull))], None)
   \<and> get_prop [(''a'', Prim (JNum 2))] ''a'' \<noteq> get_prop [(''a'', Prim (JNum 1))] ''a''"
  by (simp add: submit_to_django_def extra_of_def request_body_def spread_def props_of_def
      assign_from_def own_property_names_def is_array_index_def is_digit_def
      set_prop_def get_prop_def after_call_def on_response_def)

text \<open>
  C1, amended. With a remote target and the method \<open>post\<close> or \<open>patch\<close>, the first
  effect of \<open>submit_to_django\<close> is the request to the target, and its body is the merge
  of the extra parameters with the payload: every name of the payload has the value of
  the payload, every other name the value of the extra parameters. The payload, added
  second, wins on a shared name.
\<close>

theorem request_body_payload_wins:
  assumes "django_url config = Some url" and "url \<noteq> []"
    and "method config = Some ''post'' \<or> method config = Some ''patch''"
  shows "\<exists>body rest.
           submit_to_django extra_data show_communication_error config reply h data
             = ((if method config = Some ''post'' then Http_Post url body
                 else Http_Patch url body) # rest, None)
           \<and> (\<forall>k. map_of body k =
                 (case map_of (properties (props_of h data)) k of
                    None \<Rightarrow> map_of (properties (extra_of extra_data)) k
                  | Some v \<Rightarrow> Some v))"
  using assms by (auto simp: submit_to_django_def map_of_request_body)

theorem request_body_payload_wins_witness:
  "django_url \<lparr>django_url = Some ''/api/'', method = Some ''patch'', has_initial_data = False,
       initial_data = None\<rparr> = Some ''/api/'' \<and> ''/api/'' \<noteq> []
   \<and> (\<exists>body rest.
        submit_to_django (Plain (Some [(''a'', Prim (JNum 1)), (''t'', Prim (JStr ''x''))])) (\<lambda>e. [])
          \<lparr>django_url = Some ''/api/'', method = Some ''patch'', has_initial_data = False,
           initial_data = None\<rparr>
          (Http_Ok (Scalar JNull)) [[(''a'', Prim (JNum 2))]] (Ref 0)
        = (Http_Patch ''/api/'' body # rest, None)
        \<and> map_of body ''a'' = Some (Prim (JNum 2)) \<and> map_of body ''t'' = Some (Prim (JStr ''x'')))"
proof -
  let ?config = "\<lparr>django_url = Some ''/api/'', method = Some ''patch'', has_initial_data = False,
       initial_data = None\<rparr>"
  let ?extra = "Plain (Some [(''a'', Prim (JNum 1)), (''t'', Prim (JStr ''x''))])"
  have url: "django_url ?config = Some ''/api/''" and ne: "''/api/'' \<noteq> []"
    and m: "method ?config = Some ''post'' \<or> method ?config = Some ''patch''"
    by simp_all
  from request_body_payload_wins [OF url ne m, of ?extra "\<lambda>e. []" "Http_Ok (Scalar JNull)"
      "[[(''a'', Prim (JNum 2))]]" "Ref 0"]
  obtain body rest where
    run: "submit_to_django ?extra (\<lambda>e. []) ?config (Http_Ok (Scalar JNull))
            [[(''a'', Prim (JNum 2))]] (Ref 0) = (Http_Patch ''/api/'' body # rest, None)"
    and merged: "\<forall>k. map_of body k =
        (case map_of (properties (props_of [[(''a'', Prim (JNum 2))]] (Ref 0))) k of
           None \<Rightarrow> map_of (properties (extra_of ?extra)) k
         | Some v \<Rightarrow> Some v)"
    by auto
  from merged [rule_format, of "''a''"] merged [rule_format, of "''t''"]
  have "map_of body ''a'' = Some (Prim (JNum 2))" "map_of body ''t'' = Some (Prim (JStr ''x''))"
    by (simp_all add: properties_def props_of_def extra_of_def)
  with run url ne show ?thesis by blast
qed

text \<open>
  C4. With a remote target and a method that is neither \<open>post\<close> nor \<open>patch\<close>,
  \<open>submit_to_django\<close> throws, and it has had no effect before: no request is issued and
  nothing is emitted.
\<close>

theorem unsupported_method_raises:
  assumes "django_url config = Some url" and "url \<noteq> []"
    and "method config \<noteq> Some ''post''" and "method config \<noteq> Some ''patch''"
  shows "submit_to_django extra_data show_communication_error config reply h data
           = ([], Some (Error (''Unimplemented method '' @ method_text (method config))))"
  using assms by (simp add: submit_to_django_def)

theorem unsupported_method_raises_witness:
  "django_url \<lparr>django_url = Some ''/api/'', method = Some ''put'', has_initial_data = False,
       initial_data = None\<rparr> = Some ''/api/'' \<and> ''/api/'' \<noteq> []
   \<and> Some ''put'' \<noteq> Some ''post'' \<and> Some ''put'' \<noteq> Some ''patch''
   \<and> submit_to_django (Plain None) (\<lambda>e. [])
        \<lparr>django_url = Some ''/api/'', method = Some ''put'', has_initial_data = False,
         initial_data = None\<rparr>
        (Http_Ok (Scalar JNull)) [[(''a'', Prim (JNum 2))]] (Ref 0)
      = ([], Some (Error ''Unimplemented method put''))"
  using unsupported_method_raises [of
      "\<lparr>django_url = Some ''/api/'', method = Some ''put'', has_initial_data = False,
        initial_data = None\<rparr>" "''/api/''" "Plain None" "\<lambda>e. []"
      "Http_Ok (Scalar JNull)" "[[(''a'', Prim (JNum 2))]]" "Ref 0"]
  by (simp add: method_text_def)

text \<open>
  The body of the subscription, were it handed a configuration with no remote target
  (the URL absent, or empty), emits one \<open>submit\<close> event that carries the payload and
  no response, and issues no request.
\<close>

lemma submit_body_without_target:
  assumes "django_url config = None \<or> django_url config = Some []"
  shows "submit_to_django extra_data show_communication_error config reply h data
           = ([Emit_Submit data None], None)"
  using assms by (auto simp: submit_to_django_def)

text \<open>
  The stage of the resolver that loads the initial data, were a configuration to reach
  it: one GET to the \<open>django_url\<close> of the configuration, and on a response the
  configuration with \<open>initial_data\<close> set to \<open>initial_data_transformation\<close> of the
  response.
\<close>

lemma load_initial_data_response:
  assumes "initial_data_reply b (django_url cfg) = Http_Ok response"
  shows "load_initial_data b c cfg =
           \<lparr>issued = [Http_Get (django_url cfg)], delivered = [], failed = None,
            issued_later = [],
            delivered_later = [cfg\<lparr>initial_data := Some (initial_data_transformation c response)\<rparr>]\<rparr>"
  using assms
  by (simp add: load_initial_data_def http_get_def map_op_def error_effects_def responses_of_def)

text \<open>
  The observable that \<open>ngOnInit\<close> assigns to \<open>config$\<close>, on a component where the field
  is still unassigned: the first \<open>merge\<close> is given the \<open>undefined\<close> field and fails, and
  so does every observable built on it.
\<close>

lemma first_merge_fails:
  "failed s = None \<Longrightarrow>
   observable_merge [Some s, None]
     = \<lparr>issued = issued s, delivered = delivered s, failed = Some not_a_stream,
        issued_later = [], delivered_later = []\<rparr>"
  by (simp add: closed_by_def silent_def)

lemma url_downloads:
  "merge_map (\<lambda>u. case u of None \<Rightarrow> silent | Some url \<Rightarrow> download_django_form b c url)
     (filter_op (\<lambda>u. case u of None \<Rightarrow> False | Some url \<Rightarrow> url \<noteq> [])
        (behavior_subject (url_subject c)))
   = \<lparr>issued =
        (case url_subject c of
           None \<Rightarrow> []
         | Some url \<Rightarrow>
             if url = [] then []
             else [Http_Get_Form ((if endsWith url ''/'' then url else url @ ''/'') @ ''form/'')
                     (extra_form_data c)]),
      delivered = [], failed = None,
      issued_later =
        (case url_subject c of
           None \<Rightarrow> []
         | Some url \<Rightarrow> if url = [] then [] else issued_later (download_django_form b c url)),
      delivered_later =
        (case url_subject c of
           None \<Rightarrow> []
         | Some url \<Rightarrow> if url = [] then [] else delivered_later (download_django_form b c url))\<rparr>"
  by (cases "url_subject c")
     (simp_all add: merge_map_def filter_op_def behavior_subject_def download_django_form_def
        map_op_def Let_def)

lemma ngOnInit_config_stream:
  "config_stream (ngOnInit b (c\<lparr>config_stream := None\<rparr>))
     = Some \<lparr>issued =
               (case url_subject c of
                  None \<Rightarrow> []
                | Some url \<Rightarrow>
                    if url = [] then []
                    else [Http_Get_Form
                            ((if endsWith url ''/'' then url else url @ ''/'') @ ''form/'')
                            (extra_form_data c)]),
             delivered = [], failed = Some not_a_stream,
             issued_later = [], delivered_later = []\<rparr>"
proof -
  let ?c = "c\<lparr>config_stream := None\<rparr>"
  let ?downloads = "merge_map
      (\<lambda>u. case u of None \<Rightarrow> silent | Some url \<Rightarrow> download_django_form b ?c url)
      (filter_op (\<lambda>u. case u of None \<Rightarrow> False | Some url \<Rightarrow> url \<noteq> [])
         (behavior_subject (url_subject ?c)))"
  have d: "failed ?downloads = None" "delivered ?downloads = []"
    "issued ?downloads =
       (case url_subject c of
          None \<Rightarrow> []
        | Some url \<Rightarrow>
            if url = [] then []
            else [Http_Get_Form ((if endsWith url ''/'' then url else url @ ''/'') @ ''form/'')
                    (extra_form_data c)])"
    unfolding url_downloads by (simp_all split: option.splits)
  have m: "observable_merge [Some ?downloads, config_stream ?c]
     = \<lparr>issued = issued ?downloads, delivered = [], failed = Some not_a_stream,
        issued_later = [], delivered_later = []\<rparr>"
    using first_merge_fails [OF d(1)] d(2) by simp
  show ?thesis
    unfolding ngOnInit_def Let_def m d(3)
    by (simp add: filter_op_def merge_map_def map_op_def closed_by_def)
qed

text \<open>
  C6. The claim is that of the body of the subscription, which emits locally when the
  configuration has no remote target. The method does not reach its body: a configuration
  without URL can only come through the input \<open>config\<close>, which feeds \<open>_config$\<close>, while
  \<open>ngOnInit\<close> merges the unassigned field \<open>config$\<close>. On a component set up in any
  way before \<open>ngOnInit\<close>, \<open>submit_to_django\<close> throws the \<open>TypeError\<close> of the merge and
  emits nothing, and with no \<open>django_url\<close> input it has no effect at all. With the
  configuration \<open>{method: "post"}\<close> and the form value \<open>{name: "n"}\<close>,
  \<open>submitted("save", false)\<close> throws and emits nothing.
\<close>

theorem submit_without_target_throws:
  "snd (submit_to_django_call b (ngOnInit b (c\<lparr>config_stream := None\<rparr>)) h data)
     = Some not_a_stream
   \<and> filter is_emission
        (fst (submit_to_django_call b (ngOnInit b (c\<lparr>config_stream := None\<rparr>)) h data)) = []
   \<and> submit_to_django_call b (ngOnInit b (c\<lparr>config_stream := None, url_subject := None\<rparr>)) h data
     = ([], Some not_a_stream)
   \<and> submitted 1
        \<lparr>communication_error = (\<lambda>e. []), form_reply = (\<lambda>u. Form_Failed (Scalar JNull) []),
         initial_data_reply = (\<lambda>u. Http_Ok (Scalar JNull)), submit_reply = Http_Ok (Scalar JNull)\<rparr>
        (ngOnInit
           \<lparr>communication_error = (\<lambda>e. []), form_reply = (\<lambda>u. Form_Failed (Scalar JNull) []),
            initial_data_reply = (\<lambda>u. Http_Ok (Scalar JNull)), submit_reply = Http_Ok (Scalar JNull)\<rparr>
           (set_config
              (Some \<lparr>django_url = None, method = Some ''post'', has_initial_data = False,
                     initial_data = None\<rparr>)
              new_component))
        0 (JStr ''save'') (JBool False) [[(''name'', Prim (JStr ''n''))]]
     = Some ([[(''name'', Prim (JStr ''n''))],
              [(''name'', Prim (JStr ''n'')), (''save'', Prim (JBool True))]],
             [], Some not_a_stream)"
proof (intro conjI)
  have call: "\<And>c'. submit_to_django_call b (ngOnInit b (c'\<lparr>config_stream := None\<rparr>)) h data
      = ((case url_subject c' of
            None \<Rightarrow> []
          | Some url \<Rightarrow>
              if url = [] then []
              else [Http_Get_Form ((if endsWith url ''/'' then url else url @ ''/'') @ ''form/'')
                      (extra_form_data c')]),
         Some not_a_stream)"
    unfolding submit_to_django_call_def ngOnInit_config_stream
    by (simp add: first_subscribe_def)
  show "snd (submit_to_django_call b (ngOnInit b (c\<lparr>config_stream := None\<rparr>)) h data)
     = Some not_a_stream"
    unfolding call by simp
  show "filter is_emission
        (fst (submit_to_django_call b (ngOnInit b (c\<lparr>config_stream := None\<rparr>)) h data)) = []"
    unfolding call by (simp add: is_emission_def split: option.splits)
  have e: "c\<lparr>config_stream := None, url_subject := None\<rparr>
      = (c\<lparr>url_subject := None\<rparr>)\<lparr>config_stream := None\<rparr>" by simp
  show "submit_to_django_call b (ngOnInit b (c\<lparr>config_stream := None, url_subject := None\<rparr>)) h data
     = ([], Some not_a_stream)"
    unfolding e call by simp
next
  show "submitted 1
        \<lparr>communication_error = (\<lambda>e. []), form_reply = (\<lambda>u. Form_Failed (Scalar JNull) []),
         initial_data_reply = (\<lambda>u. Http_Ok (Scalar JNull)), submit_reply = Http_Ok (Scalar JNull)\<rparr>
        (ngOnInit
           \<lparr>communication_error = (\<lambda>e. []), form_reply = (\<lambda>u. Form_Failed (Scalar JNull) []),
            initial_data_reply = (\<lambda>u. Http_Ok (Scalar JNull)), submit_reply = Http_Ok (Scalar JNull)\<rparr>
           (set_config
              (Some \<lparr>django_url = None, method = Some ''post'', has_initial_data = False,
                     initial_data = None\<rparr>)
              new_component))
        0 (JStr ''save'') (JBool False) [[(''name'', Prim (JStr ''n''))]]
     = Some ([[(''name'', Prim (JStr ''n''))],
              [(''name'', Prim (JStr ''n'')), (''save'', Prim (JBool True))]],
             [], Some not_a_stream)"
    by code_simp
qed

text \<open>
  C8. The claim is that of the stages of the resolver: the stage that loads the initial
  data issues one GET and sets \<open>initial_data\<close>, and the other branch passes the
  configuration on. No configuration reaches them: the observable that \<open>ngOnInit\<close>
  assigns to \<open>config$\<close> fails with the \<open>TypeError\<close> of the first \<open>merge\<close> as soon as
  it is subscribed to, whatever the inputs. It publishes nothing, at once or later, and
  issues no GET for initial data; its only request is the download of the form when the
  input \<open>django_url\<close> is truthy.
\<close>

theorem resolver_publishes_nothing:
  "config_stream (ngOnInit b (c\<lparr>config_stream := None\<rparr>))
     = Some \<lparr>issued =
               (case url_subject c of
                  None \<Rightarrow> []
                | Some url \<Rightarrow>
                    if url = [] then []
                    else [Http_Get_Form
                            ((if endsWith url ''/'' then url else url @ ''/'') @ ''form/'')
                            (extra_form_data c)]),
             delivered = [], failed = Some not_a_stream,
             issued_later = [], delivered_later = []\<rparr>"
  by (rule ngOnInit_config_stream)

theorem resolver_publishes_nothing_witness:
  "config_stream
     (ngOnInit
        \<lparr>communication_error = (\<lambda>e. []), form_reply = (\<lambda>u. Form_Failed (Scalar JNull) []),
         initial_data_reply = (\<lambda>u. Http_Ok (Obj [(''name'', Scalar (JStr ''n''))])),
         submit_reply = Http_Ok (Scalar JNull)\<rparr>
        (set_config
           (Some \<lparr>django_url = Some ''/api/item/1/'', method = Some ''patch'',
                  has_initial_data = True, initial_data = None\<rparr>)
           new_component))
     = Some \<lparr>issued = [], delivered = [], failed = Some not_a_stream,
             issued_later = [], delivered_later = []\<rparr>"
  using resolver_publishes_nothing [of
      "\<lparr>communication_error = (\<lambda>e. []), form_reply = (\<lambda>u. Form_Failed (Scalar JNull) []),
        initial_data_reply = (\<lambda>u. Http_Ok (Obj [(''name'', Scalar (JStr ''n''))])),
        submit_reply = Http_Ok (Scalar JNull)\<rparr>"
      "set_config
           (Some \<lparr>django_url = Some ''/api/item/1/'', method = Some ''patch'',
                  has_initial_data = True, initial_data = None\<rparr>)
           new_component"]
  by (simp add: set_config_def new_component_def)


section \<open>Flattening on trees\<close>

text \<open>A flattened tree is settled.\<close>

lemma get_field_in_set:
  "k \<in> fst ` set gs \<Longrightarrow> (k, get_field gs k) \<in> set gs"
proof -
  assume "k \<in> fst ` set gs"
  then obtain t where "map_of gs k = Some t"
    by (metis map_of_eq_None_iff not_Some_eq)
  then show ?thesis by (auto simp: get_field_def dest: map_of_SomeD)
qed

lemma set_hoist_step_cases:
  assumes "distinct (map fst F)" and "e \<in> set (hoist_step k F)"
  shows "e \<in> set F \<and> (fst e = k \<longrightarrow> \<not> (is_marker k \<and> \<not> is_leaf (snd e)))
       \<or> (\<exists>gs. (k, Node gs) \<in> set F \<and> is_marker k \<and> fst e \<noteq> k \<and> e \<in> set gs)"
proof (cases "\<exists>gs. map_of F k = Some (Node gs) \<and> is_marker k")
  case True
  then obtain gs where m: "map_of F k = Some (Node gs)" and mk: "is_marker k" by blast
  then have in_F: "(k, Node gs) \<in> set F" by (auto dest: map_of_SomeD)
  from m mk have "hoist_step k F = delete_prop k (put_from (get_field gs) (own_property_names gs) F)"
    by (simp add: hoist_step_def)
  with assms have ne: "fst e \<noteq> k"
    and "e \<in> set (put_from (get_field gs) (own_property_names gs) F)"
    by (auto simp: set_delete_prop)
  from set_put_from_cases [OF assms(1) this(2)]
  have "(\<exists>k'. e = (k', get_field gs k') \<and> k' \<in> fst ` set gs) \<or> e \<in> set F"
    by (auto simp: set_own_property_names)
  with ne show ?thesis using in_F mk get_field_in_set [of _ gs] by auto
next
  case False
  then have eq: "hoist_step k F = F"
    by (auto simp: hoist_step_def split: option.splits tree.splits)
  { assume k: "fst e = k" and mk: "is_marker k" and nl: "\<not> is_leaf (snd e)"
    from assms eq k have "map_of F k = Some (snd e)"
      by (metis map_of_is_SomeI prod.collapse)
    with False mk nl have False by (cases "snd e") auto }
  with assms eq show ?thesis by auto
qed

lemma settleds_fold_hoist_step:
  assumes "distinct (map fst F)" and "\<forall>e \<in> set F. settled (snd e)"
    and "\<forall>e \<in> set F. is_marker (fst e) \<and> \<not> is_leaf (snd e) \<longrightarrow> fst e \<in> set ks"
  shows "settleds (fold hoist_step ks F)"
  using assms
proof (induction ks arbitrary: F)
  case Nil
  then show ?case by (auto simp: settleds_iff)
next
  case (Cons k ks)
  have d: "distinct (map fst (hoist_step k F))" using Cons.prems(1) by (rule distinct_hoist_step)
  have fields_settled: "\<And>gs e. (k, Node gs) \<in> set F \<Longrightarrow> e \<in> set gs \<Longrightarrow>
      settled (snd e) \<and> (is_leaf (snd e) \<or> \<not> is_marker (fst e))"
    using Cons.prems(2) by (fastforce simp: settleds_iff)
  have s: "\<forall>e \<in> set (hoist_step k F). settled (snd e)"
    using set_hoist_step_cases [OF Cons.prems(1)] Cons.prems(2) fields_settled by blast
  have m: "\<forall>e \<in> set (hoist_step k F). is_marker (fst e) \<and> \<not> is_leaf (snd e) \<longrightarrow> fst e \<in> set ks"
  proof (intro ballI impI)
    fix e assume e: "e \<in> set (hoist_step k F)" and mk: "is_marker (fst e) \<and> \<not> is_leaf (snd e)"
    from set_hoist_step_cases [OF Cons.prems(1) e] show "fst e \<in> set ks"
    proof
      assume a: "e \<in> set F \<and> (fst e = k \<longrightarrow> \<not> (is_marker k \<and> \<not> is_leaf (snd e)))"
      with mk have "fst e \<noteq> k" by auto
      moreover from a mk Cons.prems(3) have "fst e \<in> set (k # ks)" by blast
      ultimately show ?thesis by simp
    next
      assume "\<exists>gs. (k, Node gs) \<in> set F \<and> is_marker k \<and> fst e \<noteq> k \<and> e \<in> set gs"
      with fields_settled mk show ?thesis by blast
    qed
  qed
  from Cons.IH [OF d s m] show ?case by simp
qed

lemma settled_flat: "distinct_names t \<Longrightarrow> settled (flat t)"
  and settled_flats: "distinct_names_fields fs \<Longrightarrow> \<forall>e \<in> set (flats fs). settled (snd e)"
proof (induction t and fs rule: flat_flats.induct)
  case (2 fs)
  then have "\<forall>e \<in> set (flats fs). settled (snd e)" and "distinct (map fst (flats fs))"
    by (simp_all add: map_fst_flats)
  moreover have "\<forall>e \<in> set (flats fs). fst e \<in> set (own_property_names fs)"
    using set_own_property_names [of "flats fs"] by (simp add: own_property_names_cong [OF map_fst_flats])
  ultimately show ?case by (simp add: settleds_fold_hoist_step)
qed auto

text \<open>The loop on trees computes the flattening of the specification.\<close>

lemma hoist_step_flats_fix:
  assumes m: "map_of fs k = Some t" and st: "settled (flat t)"
  shows "flats (hoist_step k (set_prop k (flat t) fs)) = hoist_step k (flats fs)"
proof -
  have ff: "flat (flat t) = flat t" using st by (rule flat_settled)
  have m': "map_of (flats fs) k = Some (flat t)" using m by (simp add: map_of_flats)
  have "set_prop k (flat t) (flats fs) = flats fs"
    using m' by (simp add: set_prop_def update_triv)
  then have same: "flats (set_prop k (flat t) fs) = flats fs"
    using flats_set_prop [of k "flat t" fs] by (simp add: ff)
  have look: "map_of (set_prop k (flat t) fs) k = Some (flat t)"
    by (simp add: set_prop_def update_conv')
  show ?thesis
  proof (cases "\<exists>gs. flat t = Node gs \<and> is_marker k")
    case True
    then obtain gs where g: "flat t = Node gs" and mk: "is_marker k" by blast
    from st g have sg: "settleds gs" by simp
    have "\<And>k'. k' \<in> set (own_property_names gs) \<Longrightarrow> flat (get_field gs k') = get_field gs k'"
    proof -
      fix k' assume "k' \<in> set (own_property_names gs)"
      then have "(k', get_field gs k') \<in> set gs"
        by (simp add: set_own_property_names get_field_in_set)
      with sg have "settled (get_field gs k')" by (auto simp: settleds_iff)
      then show "flat (get_field gs k') = get_field gs k'" by (rule flat_settled)
    qed
    then have a: "put_from (\<lambda>k. flat (get_field gs k)) (own_property_names gs) (flats fs)
        = put_from (get_field gs) (own_property_names gs) (flats fs)"
      by (intro put_from_cong) simp
    have "hoist_step k (set_prop k (flat t) fs)
        = delete_prop k (put_from (get_field gs) (own_property_names gs) (set_prop k (flat t) fs))"
      using look g mk by (simp add: hoist_step_def)
    moreover have "hoist_step k (flats fs)
        = delete_prop k (put_from (get_field gs) (own_property_names gs) (flats fs))"
      using m' g mk by (simp add: hoist_step_def)
    ultimately show ?thesis
      using same a by (simp add: flats_delete_prop flats_put_from)
  next
    case False
    then have "hoist_step k (set_prop k (flat t) fs) = set_prop k (flat t) fs"
      using look by (auto simp: hoist_step_def split: tree.splits)
    moreover from False have "hoist_step k (flats fs) = flats fs"
      using m' by (auto simp: hoist_step_def split: tree.splits)
    ultimately show ?thesis using same by simp
  qed
qed

lemma flats_visit:
  assumes "\<forall>e \<in> set fs. settled (flat (snd e))"
  shows "flats (visit k fs) = hoist_step k (flats fs)"
proof (cases "map_of fs k")
  case None
  then show ?thesis by (simp add: visit_def hoist_step_def map_of_flats)
next
  case (Some t)
  then have "(k, t) \<in> set fs" by (rule map_of_SomeD)
  with assms have "settled (flat t)" by auto
  with Some show ?thesis by (simp add: visit_def hoist_step_flats_fix)
qed

lemma set_visit_cases:
  assumes d: "distinct (map fst fs)" and e: "e \<in> set (visit k fs)"
  shows "(e \<in> set fs \<and> fst e \<noteq> k)
       \<or> (\<exists>t. (k, t) \<in> set fs \<and> e = (k, flat t))
       \<or> (\<exists>t gs. (k, t) \<in> set fs \<and> flat t = Node gs \<and> e \<in> set gs)"
proof (cases "map_of fs k")
  case None
  then have "k \<notin> fst ` set fs" by (simp add: map_of_eq_None_iff)
  with None e show ?thesis by (auto simp: visit_def)
next
  case (Some t)
  then have t: "(k, t) \<in> set fs" by (rule map_of_SomeD)
  let ?F = "set_prop k (flat t) fs"
  have dF: "distinct (map fst ?F)" using d by (rule distinct_set_prop)
  from Some e have "e \<in> set (hoist_step k ?F)" by (simp add: visit_def)
  from set_hoist_step_cases [OF dF this] show ?thesis
    using t by (auto simp: set_set_prop [OF d])
qed

lemma distinct_visit: "distinct (map fst fs) \<Longrightarrow> distinct (map fst (visit k fs))"
  by (auto simp: visit_def distinct_hoist_step distinct_set_prop split: option.splits)

lemma fold_visit_invariants:
  assumes "distinct (map fst fs)" and "\<forall>e \<in> set fs. settled (flat (snd e))"
    and "\<forall>e \<in> set fs. fst e \<notin> set ks \<longrightarrow> settled (snd e)"
  shows "flats (fold visit ks fs) = fold hoist_step ks (flats fs)
       \<and> (\<forall>e \<in> set (fold visit ks fs). settled (snd e))"
  using assms
proof (induction ks arbitrary: fs)
  case Nil
  then show ?case by simp
next
  case (Cons k ks)
  have fields_settled: "\<And>t gs e. (k, t) \<in> set fs \<Longrightarrow> flat t = Node gs \<Longrightarrow> e \<in> set gs \<Longrightarrow>
      settled (snd e)"
  proof -
    fix t gs e assume "(k, t) \<in> set fs" "flat t = Node gs" "e \<in> set gs"
    from Cons.prems(2) \<open>(k, t) \<in> set fs\<close> have "settled (flat (snd (k, t)))" by blast
    with \<open>flat t = Node gs\<close> have "settleds gs" by simp
    with \<open>e \<in> set gs\<close> show "settled (snd e)" by (simp add: settleds_iff)
  qed
  have d: "distinct (map fst (visit k fs))" using Cons.prems(1) by (rule distinct_visit)
  have old: "\<And>t. (k, t) \<in> set fs \<Longrightarrow> settled (flat t)"
    using Cons.prems(2) by force
  have q: "\<forall>e \<in> set (visit k fs). settled (flat (snd e))"
  proof
    fix e assume "e \<in> set (visit k fs)"
    from set_visit_cases [OF Cons.prems(1) this] show "settled (flat (snd e))"
    proof (elim disjE exE conjE)
      assume "e \<in> set fs"
      with Cons.prems(2) show ?thesis by blast
    next
      fix t assume "(k, t) \<in> set fs" and e: "e = (k, flat t)"
      then have "settled (flat t)" by (intro old)
      with e show ?thesis by (simp add: flat_settled)
    next
      fix t gs assume "(k, t) \<in> set fs" "flat t = Node gs" "e \<in> set gs"
      then have "settled (snd e)" by (rule fields_settled)
      then show ?thesis by (simp add: flat_settled)
    qed
  qed
  have s: "\<forall>e \<in> set (visit k fs). fst e \<notin> set ks \<longrightarrow> settled (snd e)"
  proof (intro ballI impI)
    fix e assume "e \<in> set (visit k fs)" and nk: "fst e \<notin> set ks"
    from set_visit_cases [OF Cons.prems(1) this(1)] show "settled (snd e)"
    proof (elim disjE exE conjE)
      assume "e \<in> set fs" "fst e \<noteq> k"
      with nk have "fst e \<notin> set (k # ks)" by simp
      with \<open>e \<in> set fs\<close> Cons.prems(3) show ?thesis by blast
    next
      fix t assume "(k, t) \<in> set fs" and e: "e = (k, flat t)"
      then have "settled (flat t)" by (intro old)
      with e show ?thesis by simp
    next
      fix t gs assume "(k, t) \<in> set fs" "flat t = Node gs" "e \<in> set gs"
      then show ?thesis by (rule fields_settled)
    qed
  qed
  from Cons.IH [OF d q s] flats_visit [OF Cons.prems(2), of k] show ?case by simp
qed

lemma flat_Node_visit:
  assumes "distinct_names (Node fs)"
  shows "flat (Node fs) = Node (fold visit (own_property_names fs) fs)"
proof -
  from assms have d: "distinct (map fst fs)" and w: "distinct_names_fields fs" by simp_all
  have q: "\<forall>e \<in> set fs. settled (flat (snd e))"
    using w by (auto simp: distinct_names_fields_iff settled_flat)
  have "\<forall>e \<in> set fs. fst e \<notin> set (own_property_names fs) \<longrightarrow> settled (snd e)"
    by (simp add: set_own_property_names)
  from fold_visit_invariants [OF d q this]
  have eq: "flats (fold visit (own_property_names fs) fs) = fold hoist_step (own_property_names fs) (flats fs)"
    and s: "\<forall>e \<in> set (fold visit (own_property_names fs) fs). settled (snd e)" by simp_all
  from s have "flats (fold visit (own_property_names fs) fs) = fold visit (own_property_names fs) fs"
    by (simp add: flats_map flat_settled map_idI)
  with eq show ?thesis by simp
qed


section \<open>Trees in the store\<close>

text \<open>A tree stays where it is when the store changes elsewhere.\<close>

lemma repr_frame:
  "repr h v t \<Longrightarrow> length h \<le> length h' \<Longrightarrow> (\<forall>a \<in> fp h v t. h' ! a = h ! a)
     \<Longrightarrow> repr h' v t \<and> fp h' v t = fp h v t"
  and reprs_frame:
  "reprs h ps fs \<Longrightarrow> length h \<le> length h' \<Longrightarrow> (\<forall>a \<in> fps h ps fs. h' ! a = h ! a)
     \<Longrightarrow> reprs h' ps fs \<and> fps h' ps fs = fps h ps fs"
  by (induction h v t and h ps fs rule: repr_reprs.induct) auto

lemma fp_bound: "repr h v t \<Longrightarrow> a \<in> fp h v t \<Longrightarrow> a < length h"
  and fps_bound: "reprs h ps fs \<Longrightarrow> a \<in> fps h ps fs \<Longrightarrow> a < length h"
  by (induction h v t and h ps fs rule: repr_reprs.induct) auto

lemma repr_distinct_names: "repr h v t \<Longrightarrow> distinct_names t"
  and reprs_distinct_names: "reprs h ps fs \<Longrightarrow> distinct_names_fields fs"
  by (induction h v t and h ps fs rule: repr_reprs.induct) auto

lemma reprs_keys: "reprs h ps fs \<Longrightarrow> map fst ps = map fst fs"
proof (induction ps arbitrary: fs)
  case Nil
  then show ?case by (cases fs) auto
next
  case (Cons p ps)
  then show ?case by (cases fs; cases p) auto
qed

lemma reprs_ConsE:
  assumes "reprs h (p # ps) fs"
  obtains k v t fs' where "p = (k, v)" "fs = (k, t) # fs'" "repr h v t" "reprs h ps fs'"
    "fp h v t \<inter> fps h ps fs' = {}"
  using assms by (cases fs; cases p) auto

lemma keys_absent:
  "map fst ps = map fst fs \<Longrightarrow> k \<notin> fst ` set ps \<Longrightarrow> k \<notin> fst ` set fs"
  by (metis set_map)

lemma reprs_lookup:
  "reprs h ps fs \<Longrightarrow> map_of ps k = Some v
     \<Longrightarrow> \<exists>t. map_of fs k = Some t \<and> repr h v t \<and> fp h v t \<subseteq> fps h ps fs"
proof (induction ps arbitrary: fs)
  case Nil
  then show ?case by simp
next
  case (Cons p ps)
  from Cons.prems(1) obtain k1 v1 t1 fs' where p: "p = (k1, v1)" and fs: "fs = (k1, t1) # fs'"
    and r1: "repr h v1 t1" and rs: "reprs h ps fs'" by (rule reprs_ConsE)
  show ?case
  proof (cases "k1 = k")
    case True
    with Cons.prems(2) p fs r1 show ?thesis by auto
  next
    case False
    with Cons.prems(2) p have "map_of ps k = Some v" by simp
    from Cons.IH [OF rs this] obtain t where "map_of fs' k = Some t" "repr h v t"
      "fp h v t \<subseteq> fps h ps fs'" by blast
    with False p fs show ?thesis by auto
  qed
qed

lemma reprs_lookup_None:
  assumes "reprs h ps fs" and "map_of ps k = None"
  shows "map_of fs k = None"
proof -
  from assms(2) have "k \<notin> fst ` set ps" by (simp add: map_of_eq_None_iff)
  with reprs_keys [OF assms(1)] have "k \<notin> fst ` set fs" by (rule keys_absent)
  then show ?thesis by (simp add: map_of_eq_None_iff)
qed

lemma reprs_delete:
  "reprs h ps fs \<Longrightarrow>
   reprs h (delete_prop k ps) (delete_prop k fs)
   \<and> fps h (delete_prop k ps) (delete_prop k fs) \<subseteq> fps h ps fs"
proof (induction ps arbitrary: fs)
  case Nil
  then show ?case by (cases fs) (auto simp: delete_prop_def)
next
  case (Cons p ps)
  from Cons.prems(1) obtain k1 v1 t1 fs' where p: "p = (k1, v1)" and fs: "fs = (k1, t1) # fs'"
    and r1: "repr h v1 t1" and rs: "reprs h ps fs'" and dj: "fp h v1 t1 \<inter> fps h ps fs' = {}"
    by (rule reprs_ConsE)
  from Cons.IH [OF rs] have ih: "reprs h (delete_prop k ps) (delete_prop k fs')"
    "fps h (delete_prop k ps) (delete_prop k fs') \<subseteq> fps h ps fs'" by simp_all
  have eqs: "delete_prop k (p # ps) = (if k1 = k then delete_prop k ps else p # delete_prop k ps)"
    "delete_prop k fs = (if k1 = k then delete_prop k fs' else (k1, t1) # delete_prop k fs')"
    using p fs by (auto simp: delete_prop_def)
  show ?case
  proof (cases "k1 = k")
    case True
    with eqs ih p fs show ?thesis by auto
  next
    case False
    from ih(2) dj have "fp h v1 t1 \<inter> fps h (delete_prop k ps) (delete_prop k fs') = {}" by blast
    with False eqs ih p fs r1 show ?thesis by auto
  qed
qed

lemma delete_prop_absent: "k \<notin> fst ` set ps \<Longrightarrow> delete_prop k ps = ps"
  by (simp add: delete_prop_def)

lemma reprs_split:
  "reprs h ps fs \<Longrightarrow> distinct (map fst ps) \<Longrightarrow> map_of ps k = Some v \<Longrightarrow> map_of fs k = Some t
     \<Longrightarrow> fp h v t \<inter> fps h (delete_prop k ps) (delete_prop k fs) = {}
       \<and> fps h ps fs = fp h v t \<union> fps h (delete_prop k ps) (delete_prop k fs)"
proof (induction ps arbitrary: fs)
  case Nil
  then show ?case by simp
next
  case (Cons p ps)
  from Cons.prems(1) obtain k1 v1 t1 fs' where p: "p = (k1, v1)" and fs: "fs = (k1, t1) # fs'"
    and r1: "repr h v1 t1" and rs: "reprs h ps fs'" and dj: "fp h v1 t1 \<inter> fps h ps fs' = {}"
    by (rule reprs_ConsE)
  have keys: "map fst ps = map fst fs'" using rs by (rule reprs_keys)
  have eqs: "delete_prop k (p # ps) = (if k1 = k then delete_prop k ps else p # delete_prop k ps)"
    "delete_prop k fs = (if k1 = k then delete_prop k fs' else (k1, t1) # delete_prop k fs')"
    using p fs by (auto simp: delete_prop_def)
  show ?case
  proof (cases "k1 = k")
    case True
    from Cons.prems(2) p True have a: "k \<notin> fst ` set ps" by auto
    then have b: "k \<notin> fst ` set fs'" using keys by (rule keys_absent [rotated])
    from True Cons.prems(3,4) p fs have "v = v1" "t = t1" by simp_all
    with True eqs a b dj p fs show ?thesis by (simp add: delete_prop_absent)
  next
    case False
    from Cons.prems(2) p have d: "distinct (map fst ps)" by simp
    from False Cons.prems(3,4) p fs have "map_of ps k = Some v" "map_of fs' k = Some t" by simp_all
    from Cons.IH [OF rs d this] have ih: "fp h v t \<inter> fps h (delete_prop k ps) (delete_prop k fs') = {}"
      "fps h ps fs' = fp h v t \<union> fps h (delete_prop k ps) (delete_prop k fs')" by simp_all
    from ih dj have "fp h v t \<inter> fp h v1 t1 = {}" by blast
    with False eqs ih p fs show ?thesis by auto
  qed
qed

lemma reprs_update:
  "reprs h (delete_prop k ps) (delete_prop k fs) \<Longrightarrow> map fst ps = map fst fs
     \<Longrightarrow> distinct (map fst ps) \<Longrightarrow> repr h v t
     \<Longrightarrow> fp h v t \<inter> fps h (delete_prop k ps) (delete_prop k fs) = {}
     \<Longrightarrow> reprs h (set_prop k v ps) (set_prop k t fs)
       \<and> fps h (set_prop k v ps) (set_prop k t fs)
           = fp h v t \<union> fps h (delete_prop k ps) (delete_prop k fs)"
proof (induction ps arbitrary: fs)
  case Nil
  then show ?case by (auto simp: set_prop_def delete_prop_def)
next
  case (Cons p ps)
  obtain k1 v1 where p: "p = (k1, v1)" by (cases p)
  from Cons.prems(2) p obtain t1 fs' where fs: "fs = (k1, t1) # fs'"
    by (cases fs) auto
  from Cons.prems(2) p fs have keys: "map fst ps = map fst fs'" by simp
  have eqs: "delete_prop k (p # ps) = (if k1 = k then delete_prop k ps else p # delete_prop k ps)"
    "delete_prop k fs = (if k1 = k then delete_prop k fs' else (k1, t1) # delete_prop k fs')"
    "set_prop k v (p # ps) = (if k1 = k then (k, v) # ps else p # set_prop k v ps)"
    "set_prop k t fs = (if k1 = k then (k, t) # fs' else (k1, t1) # set_prop k t fs')"
    using p fs by (auto simp: delete_prop_def set_prop_def)
  show ?case
  proof (cases "k1 = k")
    case True
    from Cons.prems(3) p True have a: "k \<notin> fst ` set ps" by auto
    then have b: "k \<notin> fst ` set fs'" using keys by (rule keys_absent [rotated])
    from True eqs a b Cons.prems(1,4,5) show ?thesis by (simp add: delete_prop_absent)
  next
    case False
    from Cons.prems(3) p have d: "distinct (map fst ps)" by simp
    from False eqs Cons.prems(1) p have r1: "repr h v1 t1"
      and rs: "reprs h (delete_prop k ps) (delete_prop k fs')"
      and dj: "fp h v1 t1 \<inter> fps h (delete_prop k ps) (delete_prop k fs') = {}" by simp_all
    from False eqs Cons.prems(5) p have dj2: "fp h v t \<inter> fps h (delete_prop k ps) (delete_prop k fs') = {}"
      and dj3: "fp h v t \<inter> fp h v1 t1 = {}" by auto
    from Cons.IH [OF rs keys d Cons.prems(4) dj2]
    have ih: "reprs h (set_prop k v ps) (set_prop k t fs')"
      "fps h (set_prop k v ps) (set_prop k t fs')
           = fp h v t \<union> fps h (delete_prop k ps) (delete_prop k fs')" by simp_all
    from ih dj dj3 have "fp h v1 t1 \<inter> fps h (set_prop k v ps) (set_prop k t fs') = {}" by blast
    with False eqs ih p r1 show ?thesis by auto
  qed
qed

lemma hoist_loop_eq:
  "current \<noteq> parent \<Longrightarrow> parent < length h \<Longrightarrow>
   hoist_loop ks current parent h = h[parent := put_from (get_prop (h ! current)) ks (h ! parent)]"
  by (induction ks arbitrary: h) (simp_all add: put_from_def)

text \<open>Assigning the fields of one object into another, and hoisting.\<close>

lemma reprs_at:
  assumes r: "reprs h qs gs" and k: "k \<in> fst ` set qs"
  shows "map_of qs k = Some (get_prop qs k) \<and> map_of gs k = Some (get_field gs k)
       \<and> repr h (get_prop qs k) (get_field gs k)
       \<and> fp h (get_prop qs k) (get_field gs k) \<subseteq> fps h qs gs"
proof -
  from k obtain v where v: "map_of qs k = Some v"
    by (metis map_of_eq_None_iff not_Some_eq)
  from reprs_lookup [OF r v] obtain t where "map_of gs k = Some t" "repr h v t"
    "fp h v t \<subseteq> fps h qs gs" by blast
  with v show ?thesis by (simp add: get_prop_def get_field_def)
qed

lemma reprs_apart:
  assumes r: "reprs h qs gs" and d: "distinct (map fst qs)"
    and k: "k \<in> fst ` set qs" and k2: "k2 \<in> fst ` set qs" and ne: "k \<noteq> k2"
  shows "fp h (get_prop qs k) (get_field gs k) \<inter> fp h (get_prop qs k2) (get_field gs k2) = {}"
proof -
  from reprs_at [OF r k] have a: "map_of qs k = Some (get_prop qs k)"
    "map_of gs k = Some (get_field gs k)" by simp_all
  from reprs_split [OF r d a]
  have s: "fp h (get_prop qs k) (get_field gs k) \<inter> fps h (delete_prop k qs) (delete_prop k gs) = {}"
    by simp
  from reprs_delete [OF r, of k] have rd: "reprs h (delete_prop k qs) (delete_prop k gs)" by simp
  from reprs_at [OF r k2] have b: "map_of qs k2 = Some (get_prop qs k2)"
    "map_of gs k2 = Some (get_field gs k2)" by simp_all
  from b(1) ne have "map_of (delete_prop k qs) k2 = Some (get_prop qs k2)"
    by (simp add: delete_prop_def delete_conv')
  from reprs_lookup [OF rd this] obtain t where
    t: "map_of (delete_prop k gs) k2 = Some t" "fp h (get_prop qs k2) t \<subseteq> fps h (delete_prop k qs) (delete_prop k gs)"
    by blast
  from t(1) b(2) ne have "t = get_field gs k2" by (simp add: delete_prop_def delete_conv')
  with t(2) s show ?thesis by blast
qed

lemma assign_repr:
  assumes "reprs h P F" and q: "reprs h qs gs" and "distinct (map fst P)"
    and dq: "distinct (map fst qs)" and "distinct ks" and "set ks \<subseteq> fst ` set qs"
    and "\<forall>k \<in> set ks. fp h (get_prop qs k) (get_field gs k) \<inter> fps h P F = {}"
  shows "reprs h (assign_from (get_prop qs) ks P) (assign_from (get_field gs) ks F)
       \<and> fps h (assign_from (get_prop qs) ks P) (assign_from (get_field gs) ks F)
           \<subseteq> fps h P F \<union> fps h qs gs"
  using assms(1,3,5,6,7)
proof (induction ks arbitrary: P F)
  case Nil
  then show ?case by (simp add: assign_from_def)
next
  case (Cons k ks)
  let ?v = "get_prop qs k" and ?t = "get_field gs k"
  from Cons.prems(4) have kq: "k \<in> fst ` set qs" by simp
  from reprs_at [OF q kq] have rv: "repr h ?v ?t" and sub: "fp h ?v ?t \<subseteq> fps h qs gs" by simp_all
  from reprs_delete [OF Cons.prems(1), of k]
  have rd: "reprs h (delete_prop k P) (delete_prop k F)"
    and sd: "fps h (delete_prop k P) (delete_prop k F) \<subseteq> fps h P F" by simp_all
  from Cons.prems(5) sd have dj: "fp h ?v ?t \<inter> fps h (delete_prop k P) (delete_prop k F) = {}"
    by auto
  from reprs_update [OF rd reprs_keys [OF Cons.prems(1)] Cons.prems(2) rv dj]
  have r1: "reprs h (set_prop k ?v P) (set_prop k ?t F)"
    and f1: "fps h (set_prop k ?v P) (set_prop k ?t F)
               = fp h ?v ?t \<union> fps h (delete_prop k P) (delete_prop k F)" by simp_all
  have d1: "distinct (map fst (set_prop k ?v P))" using Cons.prems(2) by (rule distinct_set_prop)
  have dks: "distinct ks" and sks: "set ks \<subseteq> fst ` set qs" and nk: "k \<notin> set ks"
    using Cons.prems(3,4) by auto
  have dj1: "\<forall>k2 \<in> set ks. fp h (get_prop qs k2) (get_field gs k2)
                \<inter> fps h (set_prop k ?v P) (set_prop k ?t F) = {}"
  proof
    fix k2 assume k2: "k2 \<in> set ks"
    with nk have ne: "k \<noteq> k2" by auto
    from k2 sks have "k2 \<in> fst ` set qs" by auto
    from reprs_apart [OF q dq kq this ne]
    have "fp h ?v ?t \<inter> fp h (get_prop qs k2) (get_field gs k2) = {}" .
    moreover from Cons.prems(5) k2 have "fp h (get_prop qs k2) (get_field gs k2) \<inter> fps h P F = {}"
      by simp
    ultimately show "fp h (get_prop qs k2) (get_field gs k2)
                \<inter> fps h (set_prop k ?v P) (set_prop k ?t F) = {}"
      using f1 sd by blast
  qed
  from Cons.IH [OF r1 d1 dks sks dj1]
  have "reprs h (assign_from (get_prop qs) ks (set_prop k ?v P))
          (assign_from (get_field gs) ks (set_prop k ?t F))"
    and "fps h (assign_from (get_prop qs) ks (set_prop k ?v P))
          (assign_from (get_field gs) ks (set_prop k ?t F))
        \<subseteq> fps h (set_prop k ?v P) (set_prop k ?t F) \<union> fps h qs gs" by simp_all
  with f1 sd sub show ?case by (auto simp: assign_from_def)
qed

lemma delete_assign_from:
  "delete_prop k (assign_from rd ks ps) = assign_from rd (removeAll k ks) (delete_prop k ps)"
  unfolding assign_from_def delete_prop_def set_prop_def
  by (induction ks arbitrary: ps) (simp_all add: delete_update_same delete_update)

lemma hoist_repr:
  assumes r: "reprs h ps fm" and d: "distinct (map fst ps)"
    and mp: "map_of ps k = Some (Ref a)" and mf: "map_of fm k = Some (Node gs)"
  shows "reprs h (delete_prop k (put_from (get_prop (h ! a)) (own_property_names (h ! a)) ps))
           (delete_prop k (put_from (get_field gs) (own_property_names gs) fm))
       \<and> fps h (delete_prop k (put_from (get_prop (h ! a)) (own_property_names (h ! a)) ps))
           (delete_prop k (put_from (get_field gs) (own_property_names gs) fm))
           \<subseteq> fps h ps fm"
proof -
  let ?qs = "h ! a" and ?as = "assigned ps (own_property_names (h ! a))"
  let ?ks = "removeAll k (assigned ps (own_property_names (h ! a)))"
  from reprs_lookup [OF r mp] obtain t where "map_of fm k = Some t" and "repr h (Ref a) t"
    by blast
  with mf have rc: "repr h (Ref a) (Node gs)" by simp
  then have q: "reprs h ?qs gs" and dg: "distinct (map fst gs)" by simp_all
  have keys: "map fst ?qs = map fst gs" using q by (rule reprs_keys)
  have names: "own_property_names gs = own_property_names ?qs"
    by (rule own_property_names_cong [OF keys [symmetric]])
  have same: "assigned fm (own_property_names gs) = ?as"
    unfolding names by (rule assigned_cong [OF reprs_keys [OF r, symmetric]])
  have dq: "distinct (map fst ?qs)" using dg keys by simp
  from reprs_split [OF r d mp mf]
  have apart: "fp h (Ref a) (Node gs) \<inter> fps h (delete_prop k ps) (delete_prop k fm) = {}"
    and whole: "fps h ps fm = fp h (Ref a) (Node gs) \<union> fps h (delete_prop k ps) (delete_prop k fm)"
    by simp_all
  from reprs_delete [OF r, of k] have rd: "reprs h (delete_prop k ps) (delete_prop k fm)" by simp
  have dd: "distinct (map fst (delete_prop k ps))" using d by (rule distinct_delete_prop)
  have dks: "distinct ?ks"
    using dq by (simp add: distinct_own_property_names distinct_removeAll distinct_assigned)
  have sks: "set ?ks \<subseteq> fst ` set ?qs"
    using set_assigned [of ps "own_property_names ?qs"] by (auto simp: set_own_property_names)
  have dj: "\<forall>k' \<in> set ?ks. fp h (get_prop ?qs k') (get_field gs k')
              \<inter> fps h (delete_prop k ps) (delete_prop k fm) = {}"
  proof
    fix k' assume "k' \<in> set ?ks"
    with sks have "k' \<in> fst ` set ?qs" by blast
    from reprs_at [OF q this] have "fp h (get_prop ?qs k') (get_field gs k') \<subseteq> fps h ?qs gs"
      by simp
    with apart show "fp h (get_prop ?qs k') (get_field gs k')
              \<inter> fps h (delete_prop k ps) (delete_prop k fm) = {}" by auto
  qed
  have inner: "fps h ?qs gs \<subseteq> fp h (Ref a) (Node gs)" by auto
  from assign_repr [OF rd q dd dq dks sks dj]
  have res: "reprs h (assign_from (get_prop ?qs) ?ks (delete_prop k ps))
          (assign_from (get_field gs) ?ks (delete_prop k fm))"
    and "fps h (assign_from (get_prop ?qs) ?ks (delete_prop k ps))
          (assign_from (get_field gs) ?ks (delete_prop k fm))
        \<subseteq> fps h (delete_prop k ps) (delete_prop k fm) \<union> fps h ?qs gs" by simp_all
  with whole inner have "fps h (assign_from (get_prop ?qs) ?ks (delete_prop k ps))
          (assign_from (get_field gs) ?ks (delete_prop k fm)) \<subseteq> fps h ps fm" by blast
  with res show ?thesis unfolding put_from_assign_from same delete_assign_from by simp
qed

section \<open>\<open>_flatten\<close> on a tree in the store\<close>

text \<open>
  One visit of the first loop, the loop, and the call: on a store that holds a tree of
  depth at most the bound, \<open>_flatten\<close> ends without error, leaves the flattened tree
  in place, and writes only to the objects of the tree and, when it hoists, to the
  parent.
\<close>

lemma depths_visit:
  assumes d: "distinct (map fst fm)" and w: "distinct_names_fields fm" and dep: "depths fm \<le> n"
  shows "depths (visit k fm) \<le> n"
proof (cases "map_of fm k")
  case None
  with dep show ?thesis by (simp add: visit_def)
next
  case (Some t)
  then have "(k, t) \<in> set fm" by (rule map_of_SomeD)
  with w dep have "distinct_names t" "depth t \<le> n"
    by (auto simp: distinct_names_fields_iff depths_le_iff)
  with depth_flat [of t] have "depth (flat t) \<le> n" by simp
  with dep d have "depths (set_prop k (flat t) fm) \<le> n"
    by (auto simp: depths_le_iff set_set_prop)
  with Some d show ?thesis
    by (simp add: visit_def depths_hoist_step distinct_set_prop)
qed

lemma repr_Ref_Node: "repr h (Ref a) t \<Longrightarrow> \<exists>fs. t = Node fs"
  by (cases t) auto

lemma repr_Prim_Leaf: "repr h (Prim p) t \<Longrightarrow> t = Leaf p"
  by (cases t) auto

lemma visit_step:
  assumes ok: "\<And>t h v k p. repr h v t \<Longrightarrow> depth t \<le> n \<Longrightarrow> p < length h \<Longrightarrow> p \<notin> fp h v t \<Longrightarrow>
      \<exists>h'. flatten n (Some k) v (Some p) h = Some (h', None) \<and> length h' = length h
         \<and> repr h' v (flat t) \<and> fp h' v (flat t) \<subseteq> fp h v t
         \<and> (\<forall>a. a \<notin> fp h v t \<longrightarrow> a \<noteq> p \<longrightarrow> h' ! a = h ! a)
         \<and> h' ! p = hoisted k v h' (h ! p)"
    and c: "c < length h" and r: "reprs h (h ! c) fm" and nc: "c \<notin> fps h (h ! c) fm"
    and d: "distinct (map fst fm)" and dep: "depths fm \<le> n"
  shows "\<exists>h'. flatten n (Some k) (get_prop (h ! c) k) (Some c) h = Some (h', None)
         \<and> length h' = length h
         \<and> reprs h' (h' ! c) (visit k fm)
         \<and> fps h' (h' ! c) (visit k fm) \<subseteq> fps h (h ! c) fm
         \<and> (\<forall>a. a \<notin> fps h (h ! c) fm \<longrightarrow> a \<noteq> c \<longrightarrow> h' ! a = h ! a)"
proof (cases "map_of (h ! c) k")
  case None
  from reprs_lookup_None [OF r None] have "visit k fm = fm" by (simp add: visit_def)
  with None r show ?thesis by (simp add: get_prop_def)
next
  case (Some v)
  let ?ps = "h ! c"
  from reprs_lookup [OF r Some] obtain t where mt: "map_of fm k = Some t"
    and rv: "repr h v t" and sub: "fp h v t \<subseteq> fps h ?ps fm" by blast
  have gp: "get_prop ?ps k = v" using Some by (simp add: get_prop_def)
  from mt have "(k, t) \<in> set fm" by (rule map_of_SomeD)
  with dep have dt: "depth t \<le> n" by (auto simp: depths_le_iff)
  from sub nc have cn: "c \<notin> fp h v t" by blast
  from ok [OF rv dt c cn, of k] obtain h' where
    run: "flatten n (Some k) v (Some c) h = Some (h', None)" and len: "length h' = length h"
    and rv': "repr h' v (flat t)" and sub': "fp h' v (flat t) \<subseteq> fp h v t"
    and fr: "\<forall>a. a \<notin> fp h v t \<longrightarrow> a \<noteq> c \<longrightarrow> h' ! a = h ! a"
    and hp: "h' ! c = hoisted k v h' ?ps" by blast
  have keys: "map fst ?ps = map fst fm" using r by (rule reprs_keys)
  have dps: "distinct (map fst ?ps)" using d keys by simp
  from reprs_split [OF r dps Some mt]
  have apart: "fp h v t \<inter> fps h (delete_prop k ?ps) (delete_prop k fm) = {}"
    and whole: "fps h ?ps fm = fp h v t \<union> fps h (delete_prop k ?ps) (delete_prop k fm)"
    by simp_all
  from reprs_delete [OF r, of k] have rd: "reprs h (delete_prop k ?ps) (delete_prop k fm)" by simp
  have same: "\<forall>a \<in> fps h (delete_prop k ?ps) (delete_prop k fm). h' ! a = h ! a"
  proof
    fix a assume a: "a \<in> fps h (delete_prop k ?ps) (delete_prop k fm)"
    with apart have "a \<notin> fp h v t" by blast
    moreover from a whole nc have "a \<noteq> c" by blast
    ultimately show "h' ! a = h ! a" using fr by blast
  qed
  have le: "length h \<le> length h'" using len by simp
  from reprs_frame [OF rd le same]
  have rd': "reprs h' (delete_prop k ?ps) (delete_prop k fm)"
    and fd': "fps h' (delete_prop k ?ps) (delete_prop k fm) = fps h (delete_prop k ?ps) (delete_prop k fm)"
    by simp_all
  from sub' apart fd' have dj': "fp h' v (flat t) \<inter> fps h' (delete_prop k ?ps) (delete_prop k fm) = {}"
    by blast
  have triv: "set_prop k v ?ps = ?ps" using Some by (simp add: set_prop_def update_triv)
  let ?fm1 = "set_prop k (flat t) fm"
  from reprs_update [OF rd' keys dps rv' dj'] triv
  have r1: "reprs h' ?ps ?fm1"
    and f1: "fps h' ?ps ?fm1 = fp h' v (flat t) \<union> fps h' (delete_prop k ?ps) (delete_prop k fm)"
    by simp_all
  from f1 sub' fd' whole have f1': "fps h' ?ps ?fm1 \<subseteq> fps h ?ps fm" by blast
  have m1: "map_of ?fm1 k = Some (flat t)" by (simp add: set_prop_def update_conv')
  have vis: "visit k fm = hoist_step k ?fm1" using mt by (simp add: visit_def)
  have frame: "\<forall>a. a \<notin> fps h ?ps fm \<longrightarrow> a \<noteq> c \<longrightarrow> h' ! a = h ! a"
    using fr sub by blast
  have "reprs h' (h' ! c) (visit k fm) \<and> fps h' (h' ! c) (visit k fm) \<subseteq> fps h' ?ps ?fm1"
  proof (cases v)
    case (Prim p)
    with rv have "t = Leaf p" by (simp add: repr_Prim_Leaf)
    with m1 have "hoist_step k ?fm1 = ?fm1" by (simp add: hoist_step_def)
    moreover from Prim hp have "h' ! c = ?ps" by (simp add: hoisted_def)
    ultimately show ?thesis using r1 vis by simp
  next
    case (Ref a)
    show ?thesis
    proof (cases "is_marker k")
      case False
      with m1 have "hoist_step k ?fm1 = ?fm1"
        by (simp add: hoist_step_def split: tree.splits)
      moreover from False Ref hp have "h' ! c = ?ps" by (simp add: hoisted_def)
      ultimately show ?thesis using r1 vis by simp
    next
      case True
      from rv' Ref obtain gs where g: "flat t = Node gs" using repr_Ref_Node by blast
      from True Ref hp have hc: "h' ! c = delete_prop k
          (put_from (get_prop (h' ! a)) (own_property_names (h' ! a)) ?ps)"
        by (simp add: hoisted_def)
      from True g m1 have hs: "hoist_step k ?fm1 = delete_prop k
          (put_from (get_field gs) (own_property_names gs) ?fm1)"
        by (simp add: hoist_step_def)
      from Some Ref have mp: "map_of ?ps k = Some (Ref a)" by simp
      from m1 g have mf: "map_of ?fm1 k = Some (Node gs)" by simp
      from hoist_repr [OF r1 dps mp mf] show ?thesis unfolding vis hs hc .
    qed
  qed
  with run len gp f1' frame show ?thesis by auto
qed

lemma loop_repr:
  assumes ok: "\<And>t h v k p. repr h v t \<Longrightarrow> depth t \<le> n \<Longrightarrow> p < length h \<Longrightarrow> p \<notin> fp h v t \<Longrightarrow>
      \<exists>h'. flatten n (Some k) v (Some p) h = Some (h', None) \<and> length h' = length h
         \<and> repr h' v (flat t) \<and> fp h' v (flat t) \<subseteq> fp h v t
         \<and> (\<forall>a. a \<notin> fp h v t \<longrightarrow> a \<noteq> p \<longrightarrow> h' ! a = h ! a)
         \<and> h' ! p = hoisted k v h' (h ! p)"
  shows "c < length h \<Longrightarrow> reprs h (h ! c) fm \<Longrightarrow> c \<notin> fps h (h ! c) fm
    \<Longrightarrow> distinct (map fst fm) \<Longrightarrow> depths fm \<le> n \<Longrightarrow>
    \<exists>h'. flatten_loop n ks c h = Some (h', None)
         \<and> length h' = length h
         \<and> reprs h' (h' ! c) (fold visit ks fm)
         \<and> fps h' (h' ! c) (fold visit ks fm) \<subseteq> fps h (h ! c) fm
         \<and> (\<forall>a. a \<notin> fps h (h ! c) fm \<longrightarrow> a \<noteq> c \<longrightarrow> h' ! a = h ! a)"
proof (induction ks arbitrary: h fm)
  case Nil
  then show ?case by simp
next
  case (Cons k ks)
  from visit_step [OF ok Cons.prems, of k] obtain h1 where
    run1: "flatten n (Some k) (get_prop (h ! c) k) (Some c) h = Some (h1, None)"
    and len1: "length h1 = length h"
    and r1: "reprs h1 (h1 ! c) (visit k fm)"
    and f1: "fps h1 (h1 ! c) (visit k fm) \<subseteq> fps h (h ! c) fm"
    and fr1: "\<forall>a. a \<notin> fps h (h ! c) fm \<longrightarrow> a \<noteq> c \<longrightarrow> h1 ! a = h ! a" by blast
  have c1: "c < length h1" using Cons.prems(1) len1 by simp
  have nc1: "c \<notin> fps h1 (h1 ! c) (visit k fm)" using f1 Cons.prems(3) by blast
  have d1: "distinct (map fst (visit k fm))" using Cons.prems(4) by (rule distinct_visit)
  have "distinct_names_fields fm" using Cons.prems(2) by (rule reprs_distinct_names)
  with Cons.prems(4,5) have dep1: "depths (visit k fm) \<le> n" by (intro depths_visit)
  from Cons.IH [OF c1 r1 nc1 d1 dep1] obtain h' where
    run: "flatten_loop n ks c h1 = Some (h', None)" and len: "length h' = length h1"
    and r': "reprs h' (h' ! c) (fold visit ks (visit k fm))"
    and f': "fps h' (h' ! c) (fold visit ks (visit k fm)) \<subseteq> fps h1 (h1 ! c) (visit k fm)"
    and fr': "\<forall>a. a \<notin> fps h1 (h1 ! c) (visit k fm) \<longrightarrow> a \<noteq> c \<longrightarrow> h' ! a = h1 ! a" by blast
  have "\<forall>a. a \<notin> fps h (h ! c) fm \<longrightarrow> a \<noteq> c \<longrightarrow> h' ! a = h ! a"
    using fr1 fr' f1 by (metis subsetD)
  with run1 run len len1 r' f' f1 show ?case by auto
qed

lemma distinct_fold_visit:
  "distinct (map fst fs) \<Longrightarrow> distinct (map fst (fold visit ks fs))"
  by (induction ks arbitrary: fs) (simp_all add: distinct_visit)

lemma flatten_node:
  assumes ok: "\<And>t h v k p. repr h v t \<Longrightarrow> depth t \<le> n \<Longrightarrow> p < length h \<Longrightarrow> p \<notin> fp h v t \<Longrightarrow>
      \<exists>h'. flatten n (Some k) v (Some p) h = Some (h', None) \<and> length h' = length h
         \<and> repr h' v (flat t) \<and> fp h' v (flat t) \<subseteq> fp h v t
         \<and> (\<forall>a. a \<notin> fp h v t \<longrightarrow> a \<noteq> p \<longrightarrow> h' ! a = h ! a)
         \<and> h' ! p = hoisted k v h' (h ! p)"
    and r: "repr h (Ref a) (Node fs)" and dep: "depths fs \<le> n"
  shows "\<exists>h1. flatten_loop n (own_property_names (h ! a)) a h = Some (h1, None)
         \<and> length h1 = length h
         \<and> repr h1 (Ref a) (flat (Node fs))
         \<and> fp h1 (Ref a) (flat (Node fs)) \<subseteq> fp h (Ref a) (Node fs)
         \<and> (\<forall>x. x \<notin> fp h (Ref a) (Node fs) \<longrightarrow> h1 ! x = h ! x)"
proof -
  from r have a: "a < length h" and d: "distinct (map fst fs)" and rs: "reprs h (h ! a) fs"
    and na: "a \<notin> fps h (h ! a) fs" by simp_all
  let ?ks = "own_property_names (h ! a)"
  from loop_repr [OF ok a rs na d dep, of ?ks] obtain h1 where
    run: "flatten_loop n ?ks a h = Some (h1, None)" and len: "length h1 = length h"
    and r1: "reprs h1 (h1 ! a) (fold visit ?ks fs)"
    and f1: "fps h1 (h1 ! a) (fold visit ?ks fs) \<subseteq> fps h (h ! a) fs"
    and fr: "\<forall>x. x \<notin> fps h (h ! a) fs \<longrightarrow> x \<noteq> a \<longrightarrow> h1 ! x = h ! x" by blast
  have names: "?ks = own_property_names fs"
    by (rule own_property_names_cong [OF reprs_keys [OF rs]])
  from r have "distinct_names (Node fs)" by (rule repr_distinct_names)
  then have fl: "flat (Node fs) = Node (fold visit ?ks fs)"
    unfolding names by (rule flat_Node_visit)
  have dv: "distinct (map fst (fold visit ?ks fs))"
    using d by (rule distinct_fold_visit)
  from a len r1 f1 na dv have "repr h1 (Ref a) (Node (fold visit ?ks fs))" by auto
  moreover from f1 have "fp h1 (Ref a) (Node (fold visit ?ks fs)) \<subseteq> fp h (Ref a) (Node fs)"
    by auto
  moreover from fr have "\<forall>x. x \<notin> fp h (Ref a) (Node fs) \<longrightarrow> h1 ! x = h ! x" by simp
  ultimately show ?thesis using run len fl by simp
qed

lemma flatten_inner:
  "repr h v t \<Longrightarrow> depth t \<le> n \<Longrightarrow> p < length h \<Longrightarrow> p \<notin> fp h v t \<Longrightarrow>
      \<exists>h'. flatten n (Some k) v (Some p) h = Some (h', None) \<and> length h' = length h
         \<and> repr h' v (flat t) \<and> fp h' v (flat t) \<subseteq> fp h v t
         \<and> (\<forall>a. a \<notin> fp h v t \<longrightarrow> a \<noteq> p \<longrightarrow> h' ! a = h ! a)
         \<and> h' ! p = hoisted k v h' (h ! p)"
proof (induction n arbitrary: t h v k p)
  case 0
  then obtain q where "t = Leaf q" by (cases t) auto
  with 0 have "v = Prim q" by (cases v) auto
  with \<open>t = Leaf q\<close> show ?case by (simp add: hoisted_def)
next
  case (Suc n)
  show ?case
  proof (cases v)
    case (Prim q)
    with Suc.prems(1) have "t = Leaf q" by (simp add: repr_Prim_Leaf)
    with Prim show ?thesis by (simp add: hoisted_def)
  next
    case (Ref a)
    with Suc.prems(1) obtain fs where t: "t = Node fs" using repr_Ref_Node by blast
    from Suc.prems(1) Ref t have r: "repr h (Ref a) (Node fs)" by simp
    from Suc.prems(2) t have dep: "depths fs \<le> n" by simp
    from flatten_node [OF Suc.IH r dep] obtain h1 where
      run: "flatten_loop n (own_property_names (h ! a)) a h = Some (h1, None)"
      and len: "length h1 = length h"
      and r1: "repr h1 (Ref a) (flat (Node fs))"
      and f1: "fp h1 (Ref a) (flat (Node fs)) \<subseteq> fp h (Ref a) (Node fs)"
      and fr: "\<forall>x. x \<notin> fp h (Ref a) (Node fs) \<longrightarrow> h1 ! x = h ! x" by blast
    from Suc.prems(4) Ref t have pn: "p \<notin> fp h (Ref a) (Node fs)" by simp
    then have pa: "a \<noteq> p" by auto
    from pn fr have hp1: "h1 ! p = h ! p" by blast
    from pn f1 have pn1: "p \<notin> fp h1 (Ref a) (flat (Node fs))" by blast
    show ?thesis
    proof (cases "is_marker k")
      case False
      with run len r1 f1 fr hp1 Ref t show ?thesis by (simp add: hoisted_def)
    next
      case True
      let ?new = "delete_prop k (put_from (get_prop (h1 ! a)) (own_property_names (h1 ! a)) (h ! p))"
      let ?h' = "h1[p := ?new]"
      from Suc.prems(3) len have p1: "p < length h1" by simp
      from True run pa p1 hp1 have res: "flatten (Suc n) (Some k) (Ref a) (Some p) h = Some (?h', None)"
        by (simp add: hoist_loop_eq)
      have same: "\<forall>x \<in> fp h1 (Ref a) (flat (Node fs)). ?h' ! x = h1 ! x"
      proof
        fix x assume "x \<in> fp h1 (Ref a) (flat (Node fs))"
        with pn1 have "x \<noteq> p" by blast
        then show "?h' ! x = h1 ! x" by simp
      qed
      have "length h1 \<le> length ?h'" by simp
      from repr_frame [OF r1 this same]
      have r': "repr ?h' (Ref a) (flat (Node fs))"
        and f': "fp ?h' (Ref a) (flat (Node fs)) = fp h1 (Ref a) (flat (Node fs))" by simp_all
      have fr': "\<forall>x. x \<notin> fp h (Ref a) (Node fs) \<longrightarrow> x \<noteq> p \<longrightarrow> ?h' ! x = h ! x"
        using fr by simp
      have hp': "?h' ! p = hoisted k (Ref a) ?h' (h ! p)"
        using True pa p1 by (simp add: hoisted_def)
      from f' f1 have f'': "fp ?h' (Ref a) (flat (Node fs)) \<subseteq> fp h (Ref a) (Node fs)"
        by (simp only:)
      have len': "length ?h' = length h" using len by simp
      show ?thesis unfolding Ref t using res len' r' f'' fr' hp' by blast
    qed
  qed
qed

lemma flatten_top:
  assumes r: "repr h v t" and dep: "depth t \<le> n"
  shows "\<exists>h'. flatten n None v None h = Some (h', None) \<and> length h' = length h
         \<and> repr h' v (flat t) \<and> fp h' v (flat t) \<subseteq> fp h v t
         \<and> (\<forall>a. a \<notin> fp h v t \<longrightarrow> h' ! a = h ! a)"
proof (cases v)
  case (Prim q)
  with r have "t = Leaf q" by (simp add: repr_Prim_Leaf)
  with Prim show ?thesis by simp
next
  case (Ref a)
  with r obtain fs where t: "t = Node fs" using repr_Ref_Node by blast
  with dep obtain m where n: "n = Suc m" and dm: "depths fs \<le> m" by (cases n) auto
  from r Ref t have r0: "repr h (Ref a) (Node fs)" by simp
  from flatten_node [OF flatten_inner r0 dm] obtain h1 where
    run: "flatten_loop m (own_property_names (h ! a)) a h = Some (h1, None)"
    and rest: "length h1 = length h" "repr h1 (Ref a) (flat (Node fs))"
      "fp h1 (Ref a) (flat (Node fs)) \<subseteq> fp h (Ref a) (Node fs)"
      "\<forall>x. x \<notin> fp h (Ref a) (Node fs) \<longrightarrow> h1 ! x = h ! x" by blast
  from run have "flatten n None v None h = Some (h1, None)" using Ref n by simp
  with rest show ?thesis unfolding Ref t by blast
qed

section \<open>What \<open>_flatten\<close> writes\<close>

text \<open>
  On any store, \<open>_flatten\<close> writes to an object only by hoisting into it, and it hoists
  into an object only from an object that this one holds under a marker name: an object
  that holds no object under a marker name is left as it is, unless it is the parent of
  the call and the call itself hoists.
\<close>

lemma hoist_loop_other: "a \<noteq> parent \<Longrightarrow> hoist_loop ks current parent h ! a = h ! a"
  by (induction ks arbitrary: h) simp_all

lemma get_prop_object:
  assumes "\<not> holds_marker_object ps" and "is_object (get_prop ps k)"
  shows "\<not> is_marker k"
proof (cases "map_of ps k")
  case None
  with assms(2) show ?thesis by (simp add: get_prop_def is_object_def)
next
  case (Some v)
  then have "(k, v) \<in> set ps" by (rule map_of_SomeD)
  moreover from Some assms(2) have "is_object v" by (simp add: get_prop_def)
  ultimately show ?thesis using assms(1) by (force simp: holds_marker_object_def)
qed

lemma flatten_loop_writes:
  assumes ok: "\<And>name v parent h h' e. flatten n name v parent h = Some (h', e)
      \<Longrightarrow> \<not> holds_marker_object (h ! a)
      \<Longrightarrow> \<not> (parent = Some a \<and> is_object v \<and> (\<exists>nm. name = Some nm \<and> is_marker nm))
      \<Longrightarrow> h' ! a = h ! a"
  shows "flatten_loop n ks c h = Some (h', e) \<Longrightarrow> \<not> holds_marker_object (h ! a)
      \<Longrightarrow> h' ! a = h ! a"
proof (induction ks arbitrary: h)
  case Nil
  then show ?case by simp
next
  case (Cons k ks)
  have side: "\<not> (Some c = Some a \<and> is_object (get_prop (h ! c) k)
      \<and> (\<exists>nm. Some k = Some nm \<and> is_marker nm))"
    using get_prop_object [OF Cons.prems(2), of k] by auto
  show ?case
  proof (cases "flatten n (Some k) (get_prop (h ! c) k) (Some c) h")
    case None
    with Cons.prems(1) show ?thesis by simp
  next
    case (Some r)
    obtain h1 e1 where r: "r = (h1, e1)" by (cases r)
    from ok [OF Some [unfolded r] Cons.prems(2) side] have same: "h1 ! a = h ! a" .
    show ?thesis
    proof (cases e1)
      case None
      with Some r Cons.prems(1) have "flatten_loop n ks c h1 = Some (h', e)" by simp
      moreover from same Cons.prems(2) have "\<not> holds_marker_object (h1 ! a)" by simp
      ultimately have "h' ! a = h1 ! a" by (rule Cons.IH)
      with same show ?thesis by simp
    next
      case (Some err)
      with \<open>flatten n (Some k) (get_prop (h ! c) k) (Some c) h = Some r\<close> r Cons.prems(1)
      have "h' = h1" by simp
      with same show ?thesis by simp
    qed
  qed
qed

lemma flatten_writes:
  "flatten n name v parent h = Some (h', e) \<Longrightarrow> \<not> holds_marker_object (h ! a)
     \<Longrightarrow> \<not> (parent = Some a \<and> is_object v \<and> (\<exists>nm. name = Some nm \<and> is_marker nm))
     \<Longrightarrow> h' ! a = h ! a"
proof (induction n arbitrary: name v parent h h' e)
  case 0
  then show ?case by (cases v) simp_all
next
  case (Suc n)
  show ?case
  proof (cases v)
    case (Prim p)
    with Suc.prems(1) show ?thesis by simp
  next
    case (Ref current)
    show ?thesis
    proof (cases "flatten_loop n (own_property_names (h ! current)) current h")
      case None
      with Suc.prems(1) Ref show ?thesis by simp
    next
      case (Some r)
      obtain h1 e1 where r: "r = (h1, e1)" by (cases r)
      have same: "h1 ! a = h ! a"
      proof (rule flatten_loop_writes [where n = n and a = a and e = e1])
        show "flatten_loop n (own_property_names (h ! current)) current h = Some (h1, e1)"
          using Some r by simp
        show "\<not> holds_marker_object (h ! a)" by (rule Suc.prems(2))
      next
        fix name' v' parent' g g' e'
        assume "flatten n name' v' parent' g = Some (g', e')"
          and "\<not> holds_marker_object (g ! a)"
          and "\<not> (parent' = Some a \<and> is_object v' \<and> (\<exists>nm. name' = Some nm \<and> is_marker nm))"
        then show "g' ! a = g ! a" by (rule Suc.IH)
      qed
      show ?thesis
      proof (cases e1)
        case (Some err)
        with \<open>flatten_loop n (own_property_names (h ! current)) current h = Some r\<close> r
          Suc.prems(1) Ref
        have "h' = h1" by simp
        with same show ?thesis by simp
      next
        case None
        note loop = \<open>flatten_loop n (own_property_names (h ! current)) current h = Some r\<close>
        show ?thesis
        proof (cases "\<exists>nm p. name = Some nm \<and> is_marker nm \<and> parent = Some p")
          case False
          with loop r None Suc.prems(1) Ref have "h' = h1"
            by (auto split: option.splits if_splits)
          with same show ?thesis by simp
        next
          case True
          then obtain nm p where nm: "name = Some nm" "is_marker nm" and p: "parent = Some p"
            by blast
          with Suc.prems(3) Ref have pa: "a \<noteq> p" by (auto simp: is_object_def)
          from loop r None Suc.prems(1) Ref nm p
          have "h' = (hoist_loop (own_property_names (h1 ! current)) current p h1)
                       [p := delete_prop nm
                          (hoist_loop (own_property_names (h1 ! current)) current p h1 ! p)]"
            by (simp add: Let_def)
          with pa have "h' ! a = hoist_loop (own_property_names (h1 ! current)) current p h1 ! a"
            by simp
          with pa same show ?thesis by (simp add: hoist_loop_other)
        qed
      qed
    qed
  qed
qed

section \<open>Flattening without clashes\<close>











section \<open>Properties of flattening and of \<open>submitted\<close>\<close>

text \<open>Without marker names nothing is written.\<close>

lemma no_markers_iff:
  "no_markers fs \<longleftrightarrow> (\<forall>e \<in> set fs. \<not> startsWith (fst e) ''generated_'' \<and> no_marker (snd e))"
  by (induction fs) auto

lemma no_marker_settled: "no_marker t \<Longrightarrow> settled t"
  and no_markers_settleds: "no_markers fs \<Longrightarrow> settleds fs"
  by (induction t and fs rule: no_marker_no_markers.induct) (auto simp: is_marker_def)

lemma flatten_loop_same:
  assumes "\<And>k. k \<in> set ks \<Longrightarrow> flatten n (Some k) (get_prop (h ! c) k) (Some c) h = Some (h, None)"
  shows "flatten_loop n ks c h = Some (h, None)"
  using assms by (induction ks) simp_all

lemma flatten_no_marker_inner:
  "no_marker t \<Longrightarrow> repr h v t \<Longrightarrow> depth t \<le> n \<Longrightarrow> \<not> is_marker k
     \<Longrightarrow> flatten n (Some k) v parent h = Some (h, None)"
proof (induction n arbitrary: t v k parent)
  case 0
  then show ?case by (cases t; cases v) auto
next
  case (Suc n)
  show ?case
  proof (cases v)
    case (Prim q)
    then show ?thesis by simp
  next
    case (Ref a)
    with Suc.prems(2) obtain fs where t: "t = Node fs" using repr_Ref_Node by blast
    from Suc.prems t Ref have nm: "no_markers fs" and rs: "reprs h (h ! a) fs"
      and dep: "depths fs \<le> n" by simp_all
    have "flatten_loop n (own_property_names (h ! a)) a h = Some (h, None)"
    proof (rule flatten_loop_same)
      fix k' assume "k' \<in> set (own_property_names (h ! a))"
      then have "k' \<in> fst ` set (h ! a)" by (simp add: set_own_property_names)
      from reprs_at [OF rs this] have m: "map_of fs k' = Some (get_field fs k')"
        and r: "repr h (get_prop (h ! a) k') (get_field fs k')" by simp_all
      from m have in_fs: "(k', get_field fs k') \<in> set fs" by (rule map_of_SomeD)
      with nm have "\<not> startsWith k' ''generated_''" and n1: "no_marker (get_field fs k')"
        by (auto simp: no_markers_iff)
      then have n2: "\<not> is_marker k'" by (simp add: is_marker_def)
      from in_fs dep have "depth (get_field fs k') \<le> n" by (auto simp: depths_le_iff)
      from Suc.IH [OF n1 r this n2]
      show "flatten n (Some k') (get_prop (h ! a) k') (Some a) h = Some (h, None)" .
    qed
    with Suc.prems(4) Ref show ?thesis by simp
  qed
qed

lemma flatten_no_marker_top:
  assumes nm: "no_marker t" and r: "repr h v t" and dep: "depth t \<le> n"
  shows "flatten n None v None h = Some (h, None)"
proof (cases v)
  case (Prim q)
  then show ?thesis by simp
next
  case (Ref a)
  with r obtain fs where t: "t = Node fs" using repr_Ref_Node by blast
  with dep obtain m where n: "n = Suc m" and dm: "depths fs \<le> m" by (cases n) auto
  from nm r t Ref have nms: "no_markers fs" and rs: "reprs h (h ! a) fs" by simp_all
  have "flatten_loop m (own_property_names (h ! a)) a h = Some (h, None)"
  proof (rule flatten_loop_same)
    fix k' assume "k' \<in> set (own_property_names (h ! a))"
    then have "k' \<in> fst ` set (h ! a)" by (simp add: set_own_property_names)
    from reprs_at [OF rs this] have m: "map_of fs k' = Some (get_field fs k')"
      and r': "repr h (get_prop (h ! a) k') (get_field fs k')" by simp_all
    from m have in_fs: "(k', get_field fs k') \<in> set fs" by (rule map_of_SomeD)
    with nms have "\<not> startsWith k' ''generated_''" and n1: "no_marker (get_field fs k')"
      by (auto simp: no_markers_iff)
    then have n2: "\<not> is_marker k'" by (simp add: is_marker_def)
    from in_fs dm have "depth (get_field fs k') \<le> m" by (auto simp: depths_le_iff)
    from flatten_no_marker_inner [OF n1 r' this n2]
    show "flatten m (Some k') (get_prop (h ! a) k') (Some a) h = Some (h, None)" .
  qed
  with Ref n show ?thesis by simp
qed

text \<open>The shallow copy of \<open>submitted\<close> holds the snapshot: the fields of the form
  value, but for one named \<open>__proto__\<close>.\<close>

lemma snapshot_assign_from:
  "snapshot fs = assign_from (get_field fs) (removeAll ''__proto__'' (own_property_names fs)) []"
  by (simp add: snapshot_def put_from_assign_from assigned_def)

lemma set_snapshot:
  "distinct (map fst fs) \<Longrightarrow> set (snapshot fs) = {e \<in> set fs. fst e \<noteq> ''__proto__''}"
proof -
  assume d: "distinct (map fst fs)"
  have a: "\<And>k. k \<in> fst ` set fs \<Longrightarrow> (k, get_field fs k) \<in> set fs" by (rule get_field_in_set)
  have b: "\<And>k t. (k, t) \<in> set fs \<Longrightarrow> get_field fs k = t"
    using d by (simp add: get_field_def)
  have "set (snapshot fs)
      = {(k, get_field fs k) | k. k \<in> fst ` set fs \<and> k \<noteq> ''__proto__''}"
    unfolding snapshot_assign_from by (auto simp: set_assign_from set_own_property_names)
  also have "\<dots> = {e \<in> set fs. fst e \<noteq> ''__proto__''}"
    using a b by (auto simp: rev_image_eqI)
  finally show ?thesis .
qed

lemma copy_repr:
  assumes r: "repr h (Ref f) (Node fs)"
  shows "repr (h @ [object_assign [] (h ! f)]) (Ref (length h)) (Node (snapshot fs))
       \<and> fp (h @ [object_assign [] (h ! f)]) (Ref (length h)) (Node (snapshot fs))
           \<subseteq> insert (length h) (fps h (h ! f) fs)"
proof -
  let ?qs = "h ! f" and ?copy = "object_assign [] (h ! f)"
  let ?h0 = "h @ [?copy]"
  let ?ks = "removeAll ''__proto__'' (own_property_names ?qs)"
  from r have f: "f < length h" and d: "distinct (map fst fs)" and rs: "reprs h ?qs fs"
    by simp_all
  have keys: "map fst ?qs = map fst fs" using rs by (rule reprs_keys)
  have names: "own_property_names fs = own_property_names ?qs"
    by (rule own_property_names_cong [OF keys [symmetric]])
  have dq: "distinct (map fst ?qs)" using d keys by simp
  have e: "reprs h [] []" "distinct (map fst ([] :: props))" by simp_all
  have dks: "distinct ?ks" using dq by (simp add: distinct_own_property_names distinct_removeAll)
  have sks: "set ?ks \<subseteq> fst ` set ?qs"
    by (auto simp: set_own_property_names)
  have dj: "\<forall>k \<in> set ?ks. fp h (get_prop ?qs k) (get_field fs k) \<inter> fps h [] [] = {}" by simp
  have copy: "?copy = assign_from (get_prop ?qs) ?ks []"
    by (simp add: object_assign_def put_from_assign_from assigned_def)
  have snap: "snapshot fs = assign_from (get_field fs) ?ks []"
    unfolding snapshot_assign_from names ..
  from assign_repr [OF e(1) rs e(2) dq dks sks dj]
  have rc: "reprs h ?copy (snapshot fs)" and fc: "fps h ?copy (snapshot fs) \<subseteq> fps h ?qs fs"
    unfolding copy snap by simp_all
  have same: "\<forall>a \<in> fps h ?copy (snapshot fs). ?h0 ! a = h ! a"
    using fps_bound [OF rc] by (simp add: nth_append)
  have "length h \<le> length ?h0" by simp
  from reprs_frame [OF rc this same]
  have rc0: "reprs ?h0 ?copy (snapshot fs)"
    and fc0: "fps ?h0 ?copy (snapshot fs) = fps h ?copy (snapshot fs)" by simp_all
  have "length h \<notin> fps h ?copy (snapshot fs)" using fps_bound [OF rc] by blast
  moreover have "distinct (map fst (snapshot fs))"
    unfolding snapshot_def by (rule distinct_put_from) simp
  ultimately show ?thesis using rc0 fc0 fc by auto
qed

lemma depths_snapshot: "distinct (map fst fs) \<Longrightarrow> depths (snapshot fs) \<le> depths fs"
proof -
  assume "distinct (map fst fs)"
  then have "set (snapshot fs) \<subseteq> set fs" by (auto simp: set_snapshot)
  then show ?thesis using depths_le_iff [of fs "depths fs"] by (auto simp: depths_le_iff)
qed

lemma no_markers_snapshot:
  "distinct (map fst fs) \<Longrightarrow> no_markers fs \<Longrightarrow> no_markers (snapshot fs)"
  by (simp add: no_markers_iff set_snapshot)







lemma submitted_copy:
  assumes r: "repr h (Ref f) (Node fs)" and dep: "depth (Node fs) \<le> n"
  shows "\<exists>h1. flatten n None (Ref (length h)) None (h @ [object_assign [] (h ! f)]) = Some (h1, None)
       \<and> length h1 = Suc (length h)
       \<and> repr h1 (Ref (length h)) (flat (Node (snapshot fs)))
       \<and> (\<forall>a < length h. a \<notin> fps h (h ! f) fs \<longrightarrow> h1 ! a = h ! a)
       \<and> (\<forall>a < length h. \<not> holds_marker_object (h ! a) \<longrightarrow> h1 ! a = h ! a)
       \<and> (no_markers fs \<longrightarrow> h1 = h @ [object_assign [] (h ! f)])"
proof -
  let ?h0 = "h @ [object_assign [] (h ! f)]" and ?c = "length h"
  from r have d: "distinct (map fst fs)" by simp
  from copy_repr [OF r] have r0: "repr ?h0 (Ref ?c) (Node (snapshot fs))"
    and f0: "fp ?h0 (Ref ?c) (Node (snapshot fs)) \<subseteq> insert ?c (fps h (h ! f) fs)" by simp_all
  from dep depths_snapshot [OF d] have dep0: "depth (Node (snapshot fs)) \<le> n" by simp
  from flatten_top [OF r0 dep0] obtain h1 where
    run: "flatten n None (Ref ?c) None ?h0 = Some (h1, None)" and len: "length h1 = length ?h0"
    and r1: "repr h1 (Ref ?c) (flat (Node (snapshot fs)))"
    and fr: "\<forall>a. a \<notin> fp ?h0 (Ref ?c) (Node (snapshot fs)) \<longrightarrow> h1 ! a = ?h0 ! a" by blast
  have keep: "\<forall>a < length h. a \<notin> fps h (h ! f) fs \<longrightarrow> h1 ! a = h ! a"
  proof (intro allI impI)
    fix a assume a: "a < length h" "a \<notin> fps h (h ! f) fs"
    with f0 have "a \<notin> fp ?h0 (Ref ?c) (Node (snapshot fs))" by auto
    with fr a show "h1 ! a = h ! a" by (simp add: nth_append)
  qed
  have plain: "\<forall>a < length h. \<not> holds_marker_object (h ! a) \<longrightarrow> h1 ! a = h ! a"
  proof (intro allI impI)
    fix a assume a: "a < length h" and nh: "\<not> holds_marker_object (h ! a)"
    from a have same: "?h0 ! a = h ! a" by (simp add: nth_append)
    with nh have "\<not> holds_marker_object (?h0 ! a)" by simp
    moreover have "\<not> ((None :: addr option) = Some a \<and> is_object (Ref ?c)
        \<and> (\<exists>nm. (None :: string option) = Some nm \<and> is_marker nm))" by simp
    ultimately have "h1 ! a = ?h0 ! a" by (rule flatten_writes [OF run])
    with same show "h1 ! a = h ! a" by simp
  qed
  have "no_markers fs \<longrightarrow> h1 = ?h0"
  proof
    assume "no_markers fs"
    with d have "no_marker (Node (snapshot fs))" by (simp add: no_markers_snapshot)
    from flatten_no_marker_top [OF this r0 dep0] run show "h1 = ?h0" by simp
  qed
  with run len r1 keep plain show ?thesis by auto
qed

lemma button_repr_set:
  assumes r: "repr h1 (Ref c) (Node R)"
  shows "repr (h1[c := set_prop key (Prim (JBool True)) (h1 ! c)]) (Ref c)
           (Node (set_prop key (Leaf (JBool True)) R))"
proof -
  let ?ps = "h1 ! c" and ?h2 = "h1[c := set_prop key (Prim (JBool True)) (h1 ! c)]"
  from r have c: "c < length h1" and d: "distinct (map fst R)" and rs: "reprs h1 ?ps R"
    and nc: "c \<notin> fps h1 ?ps R" by simp_all
  have keys: "map fst ?ps = map fst R" using rs by (rule reprs_keys)
  have dps: "distinct (map fst ?ps)" using d keys by simp
  from reprs_delete [OF rs, of key]
  have rd: "reprs h1 (delete_prop key ?ps) (delete_prop key R)"
    and sd: "fps h1 (delete_prop key ?ps) (delete_prop key R) \<subseteq> fps h1 ?ps R" by simp_all
  have same: "\<forall>a \<in> fps h1 (delete_prop key ?ps) (delete_prop key R). ?h2 ! a = h1 ! a"
  proof
    fix a assume "a \<in> fps h1 (delete_prop key ?ps) (delete_prop key R)"
    with sd nc have "a \<noteq> c" by blast
    then show "?h2 ! a = h1 ! a" by simp
  qed
  have "length h1 \<le> length ?h2" by simp
  from reprs_frame [OF rd this same]
  have rd2: "reprs ?h2 (delete_prop key ?ps) (delete_prop key R)"
    and fd2: "fps ?h2 (delete_prop key ?ps) (delete_prop key R)
               = fps h1 (delete_prop key ?ps) (delete_prop key R)" by simp_all
  have rv: "repr ?h2 (Prim (JBool True)) (Leaf (JBool True))" by simp
  have dj: "fp ?h2 (Prim (JBool True)) (Leaf (JBool True))
              \<inter> fps ?h2 (delete_prop key ?ps) (delete_prop key R) = {}" by simp
  from reprs_update [OF rd2 keys dps rv dj]
  have r2: "reprs ?h2 (set_prop key (Prim (JBool True)) ?ps) (set_prop key (Leaf (JBool True)) R)"
    and f2: "fps ?h2 (set_prop key (Prim (JBool True)) ?ps) (set_prop key (Leaf (JBool True)) R)
              = fps ?h2 (delete_prop key ?ps) (delete_prop key R)" by simp_all
  from f2 fd2 sd nc
  have "c \<notin> fps ?h2 (set_prop key (Prim (JBool True)) ?ps) (set_prop key (Leaf (JBool True)) R)"
    by blast
  moreover have "distinct (map fst (set_prop key (Leaf (JBool True)) R))"
    using d by (rule distinct_set_prop)
  ultimately show ?thesis using c r2 by simp
qed

lemma button_repr:
  assumes r: "repr h1 (Ref c) (Node R)"
  shows "repr (h1[c := put_prop key (Prim (JBool True)) (h1 ! c)]) (Ref c)
           (Node (put_prop key (Leaf (JBool True)) R))"
proof -
  from r have rs: "reprs h1 (h1 ! c) R" by simp
  have "map fst (h1 ! c) = map fst R" using rs by (rule reprs_keys)
  then have keys: "fst ` set (h1 ! c) = fst ` set R" by (metis set_map)
  show ?thesis
  proof (cases "key = ''__proto__'' \<and> key \<notin> fst ` set R")
    case True
    then have k: "key = ''__proto__''" and n: "''__proto__'' \<notin> fst ` set R" by auto
    from n keys have n': "''__proto__'' \<notin> fst ` set (h1 ! c)" by simp
    have "put_prop key (Prim (JBool True)) (h1 ! c) = h1 ! c"
      unfolding put_prop_def k using n' by simp
    moreover have "put_prop key (Leaf (JBool True)) R = R"
      unfolding put_prop_def k using n by simp
    ultimately show ?thesis using r by (simp only: list_update_id)
  next
    case False
    with keys have e: "put_prop key (Prim (JBool True)) (h1 ! c) = set_prop key (Prim (JBool True)) (h1 ! c)"
      "put_prop key (Leaf (JBool True)) R = set_prop key (Leaf (JBool True)) R"
      by (auto simp: put_prop_def)
    show ?thesis unfolding e by (rule button_repr_set [OF r])
  qed
qed

section \<open>Properties of flattening and of \<open>submitted\<close>\<close>




text \<open>
  C9. On a payload tree with no name prefixed by \<open>generated_\<close> at any depth,
  \<open>_flatten\<close> ends and leaves the store as it was, and the flattening of the
  specification is the identity.
\<close>

theorem flatten_identity_without_markers:
  assumes "no_marker t" and "repr h v t" and "depth t \<le> n"
  shows "flatten n None v None h = Some (h, None) \<and> flat t = t"
  using flatten_no_marker_top [OF assms] flat_settled [OF no_marker_settled [OF assms(1)]]
  by simp

theorem flatten_identity_without_markers_witness:
  "no_marker (Node [(''name'', Leaf (JStr ''n'')), (''address'', Node [(''city'', Leaf (JStr ''c''))])])
   \<and> repr [[(''name'', Prim (JStr ''n'')), (''address'', Ref 1)], [(''city'', Prim (JStr ''c''))]] (Ref 0)
       (Node [(''name'', Leaf (JStr ''n'')), (''address'', Node [(''city'', Leaf (JStr ''c''))])])
   \<and> depth (Node [(''name'', Leaf (JStr ''n'')), (''address'', Node [(''city'', Leaf (JStr ''c''))])]) \<le> 2
   \<and> flatten 2 None (Ref 0) None
        [[(''name'', Prim (JStr ''n'')), (''address'', Ref 1)], [(''city'', Prim (JStr ''c''))]]
      = Some ([[(''name'', Prim (JStr ''n'')), (''address'', Ref 1)], [(''city'', Prim (JStr ''c''))]], None)"
proof -
  let ?h = "[[(''name'', Prim (JStr ''n'')), (''address'', Ref 1)], [(''city'', Prim (JStr ''c''))]]"
  let ?t = "Node [(''name'', Leaf (JStr ''n'')), (''address'', Node [(''city'', Leaf (JStr ''c''))])]"
  have n: "no_marker ?t" by (simp add: startsWith_def)
  have r: "repr ?h (Ref 0) ?t" by simp
  have d: "depth ?t \<le> 2" by simp
  from flatten_identity_without_markers [OF n r d] n r d show ?thesis by blast
qed

text \<open>
  The run of \<open>submitted\<close> on a form value that is a payload tree: the copy is the new
  object at the end of the store; after flattening and the key of the button it holds
  the payload. The objects of the store that are not nested in the form value are as they
  were, and so is every object that holds no object under a marker name.
\<close>

lemma submitted_run:
  assumes r: "repr h (Ref f) (Node fs)" and dep: "depth (Node fs) \<le> n"
  shows "\<exists>h'. submitted n b c f button_id is_cancel h
          = Some (h', (if truthy_prim is_cancel then ([Emit_Cancel (Ref (length h))], None)
                       else submit_to_django_call b c h' (Ref (length h))))
       \<and> length h' = Suc (length h)
       \<and> repr h' (Ref (length h)) (with_button button_id (flat (Node (snapshot fs))))
       \<and> (\<forall>a < length h. a \<notin> fps h (h ! f) fs \<longrightarrow> h' ! a = h ! a)
       \<and> (\<forall>a < length h. \<not> holds_marker_object (h ! a) \<longrightarrow> h' ! a = h ! a)
       \<and> (no_markers fs \<longrightarrow> (\<forall>a < length h. h' ! a = h ! a))"
proof -
  let ?c = "length h" and ?h0 = "h @ [object_assign [] (h ! f)]"
  from submitted_copy [OF r dep] obtain h1 where
    run: "flatten n None (Ref ?c) None ?h0 = Some (h1, None)"
    and len: "length h1 = Suc ?c"
    and r1: "repr h1 (Ref ?c) (flat (Node (snapshot fs)))"
    and keep: "\<forall>a < ?c. a \<notin> fps h (h ! f) fs \<longrightarrow> h1 ! a = h ! a"
    and plain: "\<forall>a < ?c. \<not> holds_marker_object (h ! a) \<longrightarrow> h1 ! a = h ! a"
    and nm: "no_markers fs \<longrightarrow> h1 = ?h0" by blast
  let ?h2 = "if truthy_prim button_id
             then h1[?c := put_prop (property_key button_id) (Prim (JBool True)) (h1 ! ?c)]
             else h1"
  obtain R where R: "flat (Node (snapshot fs)) = Node R" by simp
  have r2: "repr ?h2 (Ref ?c) (with_button button_id (flat (Node (snapshot fs))))"
    using r1 button_repr [of h1 ?c R "property_key button_id"]
    unfolding R by (simp add: with_button_def)
  have len2: "length ?h2 = Suc ?c" using len by simp
  have old: "\<forall>a < ?c. ?h2 ! a = h1 ! a" by simp
  from old keep have keep2: "\<forall>a < ?c. a \<notin> fps h (h ! f) fs \<longrightarrow> ?h2 ! a = h ! a" by simp
  from old plain have plain2: "\<forall>a < ?c. \<not> holds_marker_object (h ! a) \<longrightarrow> ?h2 ! a = h ! a"
    by simp
  have nm2: "no_markers fs \<longrightarrow> (\<forall>a < ?c. ?h2 ! a = h ! a)"
  proof (intro impI allI)
    fix a assume "no_markers fs" and a: "a < ?c"
    with nm have "h1 = ?h0" by simp
    with a have "h1 ! a = h ! a" by (simp add: nth_append)
    with old a show "?h2 ! a = h ! a" by simp
  qed
  have "submitted n b c f button_id is_cancel h
          = Some (?h2, (if truthy_prim is_cancel then ([Emit_Cancel (Ref ?c)], None)
                       else submit_to_django_call b c ?h2 (Ref ?c)))"
    using run by (simp add: submitted_def Let_def)
  with len2 r2 keep2 plain2 nm2 show ?thesis by blast
qed

text \<open>
  C2, as stated, is false. The copy is shallow: the nested objects of the form value
  are shared with the copy, and \<open>_flatten\<close> rewrites them in place. With the form value
  \<open>{grp: {generated_x: {b: 1}}}\<close> the object \<open>grp\<close> of the live form value becomes
  \<open>{b: 1}\<close>.
\<close>

theorem submitted_mutates_nested_counterexample:
  "repr [[(''grp'', Ref 1)], [(''generated_x'', Ref 2)], [(''b'', Prim (JNum 1))]] (Ref 0)
     (Node [(''grp'', Node [(''generated_x'', Node [(''b'', Leaf (JNum 1))])])])
   \<and> submitted 3
        \<lparr>communication_error = (\<lambda>e. []), form_reply = (\<lambda>u. Form_Failed (Scalar JNull) []),
          initial_data_reply = (\<lambda>u. Http_Ok (Scalar JNull)), submit_reply = Http_Ok (Scalar JNull)\<rparr>
        (new_component :: unit component) 0 JNull (JBool True)
        [[(''grp'', Ref 1)], [(''generated_x'', Ref 2)], [(''b'', Prim (JNum 1))]]
     = Some ([[(''grp'', Ref 1)], [(''b'', Prim (JNum 1))], [(''b'', Prim (JNum 1))],
              [(''grp'', Ref 1)]],
             [Emit_Cancel (Ref 3)], None)
   \<and> [[(''grp'', Ref 1)], [(''b'', Prim (JNum 1))], [(''b'', Prim (JNum 1))], [(''grp'', Ref 1)]] ! 1
       \<noteq> [[(''grp'', Ref 1)], [(''generated_x'', Ref 2)], [(''b'', Prim (JNum 1))]] ! 1"
proof (intro conjI)
  show "repr [[(''grp'', Ref 1)], [(''generated_x'', Ref 2)], [(''b'', Prim (JNum 1))]] (Ref 0)
     (Node [(''grp'', Node [(''generated_x'', Node [(''b'', Leaf (JNum 1))])])])"
    by simp
  show "submitted 3
        \<lparr>communication_error = (\<lambda>e. []), form_reply = (\<lambda>u. Form_Failed (Scalar JNull) []),
          initial_data_reply = (\<lambda>u. Http_Ok (Scalar JNull)), submit_reply = Http_Ok (Scalar JNull)\<rparr>
        (new_component :: unit component) 0 JNull (JBool True)
        [[(''grp'', Ref 1)], [(''generated_x'', Ref 2)], [(''b'', Prim (JNum 1))]]
     = Some ([[(''grp'', Ref 1)], [(''b'', Prim (JNum 1))], [(''b'', Prim (JNum 1))],
              [(''grp'', Ref 1)]],
             [Emit_Cancel (Ref 3)], None)"
    by code_simp
  show "[[(''grp'', Ref 1)], [(''b'', Prim (JNum 1))], [(''b'', Prim (JNum 1))], [(''grp'', Ref 1)]] ! 1
       \<noteq> [[(''grp'', Ref 1)], [(''generated_x'', Ref 2)], [(''b'', Prim (JNum 1))]] ! 1"
    by simp
qed

text \<open>
  C2, amended. \<open>submitted\<close> takes a shallow copy before flattening: the copy is a new
  object, and flattening it leaves unchanged the top-level form-values object, every
  object that is not nested in it, and every object, nested or not, that holds no
  object under a marker name. The nested objects are shared with the copy, and those that
  hold an object under a marker name are the ones that flattening rewrites; when the form
  values have no marker name, nothing is rewritten.
\<close>

theorem submitted_keeps_top_level:
  assumes "repr h (Ref f) (Node fs)" and "depth (Node fs) \<le> n"
  shows "\<exists>h' effects err.
           submitted n b c f button_id is_cancel h = Some (h', effects, err)
         \<and> length h' = Suc (length h)
         \<and> h' ! f = h ! f
         \<and> (\<forall>a < length h. a \<notin> fps h (h ! f) fs \<longrightarrow> h' ! a = h ! a)
         \<and> (\<forall>a < length h. \<not> holds_marker_object (h ! a) \<longrightarrow> h' ! a = h ! a)
         \<and> (no_markers fs \<longrightarrow> (\<forall>a < length h. h' ! a = h ! a))"
proof -
  from assms(1) have f: "f < length h" "f \<notin> fps h (h ! f) fs" by simp_all
  from submitted_run [OF assms, of b c button_id is_cancel]
  obtain h' where
    run: "submitted n b c f button_id is_cancel h
          = Some (h', (if truthy_prim is_cancel then ([Emit_Cancel (Ref (length h))], None)
                       else submit_to_django_call b c h' (Ref (length h))))"
    and len: "length h' = Suc (length h)"
    and keep: "\<forall>a < length h. a \<notin> fps h (h ! f) fs \<longrightarrow> h' ! a = h ! a"
    and plain: "\<forall>a < length h. \<not> holds_marker_object (h ! a) \<longrightarrow> h' ! a = h ! a"
    and nm: "no_markers fs \<longrightarrow> (\<forall>a < length h. h' ! a = h ! a)" by blast
  from keep f have "h' ! f = h ! f" by blast
  with run len keep plain nm show ?thesis by (metis prod.collapse)
qed

theorem submitted_keeps_top_level_witness:
  "repr [[(''name'', Prim (JStr ''n'')), (''generated_g'', Ref 1)], [(''x'', Prim (JNum 1))]] (Ref 0)
     (Node [(''name'', Leaf (JStr ''n'')), (''generated_g'', Node [(''x'', Leaf (JNum 1))])])
   \<and> depth (Node [(''name'', Leaf (JStr ''n'')), (''generated_g'', Node [(''x'', Leaf (JNum 1))])]) \<le> 2
   \<and> (\<exists>h' effects err.
         submitted 2
           \<lparr>communication_error = (\<lambda>e. []), form_reply = (\<lambda>u. Form_Failed (Scalar JNull) []),
          initial_data_reply = (\<lambda>u. Http_Ok (Scalar JNull)), submit_reply = Http_Ok (Scalar JNull)\<rparr>
           (new_component :: unit component) 0 (JStr ''save'') (JBool True)
           [[(''name'', Prim (JStr ''n'')), (''generated_g'', Ref 1)], [(''x'', Prim (JNum 1))]]
         = Some (h', effects, err)
       \<and> h' ! 0 = [(''name'', Prim (JStr ''n'')), (''generated_g'', Ref 1)]
       \<and> h' ! 1 = [(''x'', Prim (JNum 1))])"
proof -
  let ?h = "[[(''name'', Prim (JStr ''n'')), (''generated_g'', Ref 1)], [(''x'', Prim (JNum 1))]]"
  let ?fs = "[(''name'', Leaf (JStr ''n'')), (''generated_g'', Node [(''x'', Leaf (JNum 1))])]"
  let ?b = "\<lparr>communication_error = (\<lambda>e. []), form_reply = (\<lambda>u. Form_Failed (Scalar JNull) []),
          initial_data_reply = (\<lambda>u. Http_Ok (Scalar JNull)), submit_reply = Http_Ok (Scalar JNull)\<rparr>"
  have r: "repr ?h (Ref 0) (Node ?fs)" by simp
  have d: "depth (Node ?fs) \<le> 2" by simp
  have p: "\<not> holds_marker_object (?h ! 1)" by (simp add: holds_marker_object_def is_object_def)
  from submitted_keeps_top_level [OF r d, of ?b "new_component :: unit component" "JStr ''save''" "JBool True"]
  obtain h' effects err where
    run: "submitted 2 ?b (new_component :: unit component) 0 (JStr ''save'') (JBool True) ?h = Some (h', effects, err)"
    and top: "h' ! 0 = ?h ! 0"
    and plain: "\<forall>a < length ?h. \<not> holds_marker_object (?h ! a) \<longrightarrow> h' ! a = ?h ! a" by blast
  from plain p have "h' ! 1 = ?h ! 1" by simp
  with run top r d show ?thesis by auto
qed




end
